theory Spec2Isabelle
  imports Main "HOL-Library.Sublist"
begin

section \<open>Errors raised by the Python source\<close>

text \<open>
  \<open>UnboundLocalError\<close>: \<open>phone2prono\<close> returns the local \<open>prono\<close>, which is only
  assigned inside the body of its \<open>for\<close> loop.
  \<open>IndexError\<close>: \<open>add_phone_boundary\<close> reads \<open>phones[ipos + 1]\<close> after it has moved
  \<open>ipos\<close> past a marker.
  \<open>ReError\<close>: \<open>re.sub\<close> rejects a malformed pattern or replacement of the rule table.
\<close>

datatype error = UnboundLocalError | IndexError | ReError

section \<open>The substitutions \<open>re.sub\<close> performs for the fixed patterns of g2p.py\<close>

text \<open>
  \<open>sub_literal pat rep s\<close> is \<open>re.sub(pat, rep, s)\<close> for a pattern without
  metacharacters and a replacement without backslashes: the string is scanned from the
  left, every occurrence of \<open>pat\<close> that does not overlap an earlier one is replaced by
  \<open>rep\<close>. For the empty pattern Python inserts \<open>rep\<close> before every character and at
  the end.
\<close>

fun sub_literal :: "string \<Rightarrow> string \<Rightarrow> string \<Rightarrow> string" where
  "sub_literal pat rep [] = (if pat = [] then rep else [])"
| "sub_literal pat rep (c # cs) =
     (if pat = [] then rep @ c # sub_literal pat rep cs
      else if prefix pat (c # cs) then rep @ sub_literal pat rep (drop (length pat - 1) cs)
      else c # sub_literal pat rep cs)"

text \<open>\<open>re.sub("^oh", "", s)\<close>: without \<open>re.MULTILINE\<close> the caret matches at position 0 only.\<close>

definition sub_caret_oh :: "string \<Rightarrow> string" where
  "sub_caret_oh s = (if prefix ''oh'' s then drop 2 s else s)"

text \<open>
  \<open>re.sub("oh([# ]|$)", "ng", s)\<close>. The match is \<open>oh\<close> together with a following \<open>#\<close>
  or space, or \<open>oh\<close> alone where \<open>$\<close> holds: at the end of the string, or before a
  newline that is the last character. The whole match, the character of the group
  included, is replaced by \<open>ng\<close>.
\<close>

fun sub_oh_boundary :: "string \<Rightarrow> string" where
  "sub_oh_boundary [] = []"
| "sub_oh_boundary (c # cs) =
     (case cs of
        [] \<Rightarrow> [c]
      | d # rest \<Rightarrow>
          if c = CHR ''o'' \<and> d = CHR ''h'' then
            (case rest of
               [] \<Rightarrow> ''ng''
             | e # rest' \<Rightarrow>
                 if e = CHR ''#'' \<or> e = CHR '' '' then ''ng'' @ sub_oh_boundary rest'
                 else if e = CHR 0x0A \<and> rest' = [] then ''ng'' @ [e]
                 else c # sub_oh_boundary cs)
          else c # sub_oh_boundary cs)"

text \<open>
  \<open>\w\<close> on the characters a phone string is made of: the phone codes are lower-case
  ASCII letters and the digit 0, the markers are \<open>-\<close> and \<open>#\<close>. On ASCII, \<open>\w\<close> is
  \<open>[A-Za-z0-9_]\<close>.
\<close>

definition word_char :: "char \<Rightarrow> bool" where
  "word_char c =
     (let n = (of_char c :: nat)
      in (48 \<le> n \<and> n \<le> 57) \<or> (65 \<le> n \<and> n \<le> 90) \<or> n = 95 \<or> (97 \<le> n \<and> n \<le> 122))"

text \<open>
  \<open>re.sub(r"(\W+)\-", "\\1", s)\<close>. \<open>-\<close> is itself a non-word character, so the greedy
  \<open>\W+\<close> swallows a whole run of non-word characters and backtracks to the last \<open>-\<close>
  of the run that is not its first character; the match is replaced by the group, which
  deletes that \<open>-\<close>. What is left of the run holds no \<open>-\<close>, so a run loses at most one.
\<close>

definition fix_run :: "string \<Rightarrow> string" where
  "fix_run run =
     (if CHR ''-'' \<in> set (tl run) then rev (remove1 (CHR ''-'') (rev run)) else run)"

function sub_nonword_hyphen :: "string \<Rightarrow> string" where
  "sub_nonword_hyphen [] = []"
| "sub_nonword_hyphen (c # cs) =
     (if word_char c then c # sub_nonword_hyphen cs
      else fix_run (takeWhile (\<lambda>d. \<not> word_char d) (c # cs))
           @ sub_nonword_hyphen (dropWhile (\<lambda>d. \<not> word_char d) cs))"
  by pat_completeness auto

termination
  by (relation "measure length") (auto simp: length_dropWhile_le less_Suc_eq_le)

text \<open>
  \<open>re.sub(r"\W+$", "", s)\<close>: a newline is a non-word character, so the only match is the
  run of non-word characters that ends the string.
\<close>

definition sub_nonword_end :: "string \<Rightarrow> string" where
  "sub_nonword_end s = rev (dropWhile (\<lambda>d. \<not> word_char d) (rev s))"

text \<open>\<open>re.sub(r"^\-", "", s)\<close>.\<close>

definition sub_caret_hyphen :: "string \<Rightarrow> string" where
  "sub_caret_hyphen s = (case s of [] \<Rightarrow> [] | c # cs \<Rightarrow> if c = CHR ''-'' then cs else s)"

text \<open>
  \<open>re.sub(" $", "", s)\<close>: the space that ends the string, or the space before a newline
  that ends it.
\<close>

definition sub_space_end :: "string \<Rightarrow> string" where
  "sub_space_end s =
     (if s \<noteq> [] \<and> last s = CHR '' '' then butlast s
      else if 2 \<le> length s \<and> last s = CHR 0x0A \<and> last (butlast s) = CHR '' ''
      then butlast (butlast s) @ [CHR 0x0A]
      else s)"

text \<open>\<open>re.sub("-+", "-", s)\<close>: a \<open>-\<close> followed by another one is dropped.\<close>

fun sub_hyphens :: "string \<Rightarrow> string" where
  "sub_hyphens (c # d # cs) =
     (if c = CHR ''-'' \<and> d = CHR ''-'' then sub_hyphens (d # cs) else c # sub_hyphens (d # cs))"
| "sub_hyphens cs = cs"

section \<open>Character classes\<close>

definition is_hangul :: "int \<Rightarrow> bool" where
  "is_hangul charint = (let hangul_init = 44032; hangul_fin = 55203
                        in charint \<ge> hangul_init \<and> charint \<le> hangul_fin)"

fun check_char_type :: "int list \<Rightarrow> int list" where
  "check_char_type [] = []"
| "check_char_type (v # var_list) =
     (if v = 32 then 1 else if is_hangul v then 0 else - 1) # check_char_type var_list"

section \<open>graph2phone\<close>

definition ONS :: "string list" where
  "ONS = [''k0'', ''kk'', ''nn'', ''t0'', ''tt'', ''rr'', ''mm'', ''p0'', ''pp'', ''s0'',
          ''ss'', ''oh'', ''c0'', ''cc'', ''ch'', ''kh'', ''th'', ''ph'', ''h0'']"

definition NUC :: "string list" where
  "NUC = [''aa'', ''qq'', ''ya'', ''yq'', ''vv'', ''ee'', ''yv'', ''ye'', ''oo'', ''wa'',
          ''wq'', ''wo'', ''yo'', ''uu'', ''wv'', ''we'', ''wi'', ''yu'', ''xx'', ''xi'',
          ''ii'']"

definition COD :: "string list" where
  "COD = ['''', ''kf'', ''kk'', ''ks'', ''nf'', ''nc'', ''nh'', ''tf'', ''ll'', ''lk'',
          ''lm'', ''lb'', ''ls'', ''lt'', ''lp'', ''lh'', ''mf'', ''pf'', ''ps'', ''s0'',
          ''ss'', ''oh'', ''c0'', ''ch'', ''kh'', ''th'', ''ph'', ''h0'']"

text \<open>
  The 1-based indices of the source. \<open>math.floor(df / 588)\<close> divides two floats; for
  \<open>0 \<le> df \<le> 11171\<close> a quotient that is not an integer is at least \<open>1/588\<close> away from
  one, so the floor of the float is the integer quotient.
\<close>

definition iONS :: "int \<Rightarrow> int" where
  "iONS c = (let base = 44032; df = c - base in df div 588 + 1)"

definition iNUC :: "int \<Rightarrow> int" where
  "iNUC c = (let base = 44032; df = c - base in (df mod 588) div 28 + 1)"

definition iCOD :: "int \<Rightarrow> int" where
  "iCOD c = (let base = 44032; df = c - base in (df mod 588) mod 28 + 1)"

text \<open>The string \<open>tmp\<close> of one Hangul syllable: \<open>-\<close>, onset, nucleus, coda.\<close>

definition syllable :: "int \<Rightarrow> string" where
  "syllable c =
     (let s1 = ''-'' @ ONS ! nat (iONS c - 1);
          s2 = NUC ! nat (iNUC c - 1);
          s3 = COD ! nat (iCOD c - 1)
      in s1 @ s2 @ s3)"

text \<open>
  The \<open>while\<close> loop over the characters, on the pairs of a code point and its class;
  the substitution of \<open>-oh\<close> by \<open>-\<close> follows every character.
\<close>

fun graph2phone_walk :: "(int \<times> int) list \<Rightarrow> string \<Rightarrow> string" where
  "graph2phone_walk [] phones = phones"
| "graph2phone_walk ((c, t) # rest) phones =
     graph2phone_walk rest
       (sub_literal ''-oh'' ''-''
          (phones @ (if t = 0 then syllable c else if t = 1 then ''#'' else '''')))"

text \<open>The substitutions after the loop, in the order of the source.\<close>

definition graph2phone_cleanup :: "string \<Rightarrow> string" where
  "graph2phone_cleanup phones =
     (let phones = sub_caret_oh phones;
          phones = sub_literal ''-oh'' '''' phones;
          phones = sub_literal ''oh-'' ''ng-'' phones;
          phones = sub_oh_boundary phones;
          phones = sub_nonword_hyphen phones;
          phones = sub_nonword_end phones;
          phones = sub_caret_hyphen phones
      in phones)"

text \<open>
  \<open>graph2phone\<close> on the list \<open>integers\<close> of the code points \<open>ord(graphs[i])\<close> of its
  argument; a \<open>bytes\<close> argument is decoded to such a string before anything else.
\<close>

definition graph2phone :: "int list \<Rightarrow> string" where
  "graph2phone integers =
     graph2phone_cleanup (graph2phone_walk (zip integers (check_char_type integers)) [])"

section \<open>phone2prono\<close>

text \<open>
  The rule table is data and its patterns are arbitrary regular expressions, so
  \<open>re.sub\<close> is a parameter \<open>re_sub\<close> of the model: pattern, replacement and string give
  the rewritten string, or the error \<open>re.sub\<close> raises.
\<close>

type_synonym re_sub = "string \<Rightarrow> string \<Rightarrow> string \<Rightarrow> error + string"

text \<open>The loop keeps \<open>phones\<close> and \<open>prono\<close>; \<open>prono\<close> is unbound until the first rule ran.\<close>

fun phone2prono_loop :: "re_sub \<Rightarrow> (string \<times> string) list \<Rightarrow> string \<Rightarrow> string option
                         \<Rightarrow> error + string" where
  "phone2prono_loop re_sub [] phones prono =
     (case prono of None \<Rightarrow> Inl UnboundLocalError | Some p \<Rightarrow> Inr p)"
| "phone2prono_loop re_sub ((pattern, replacement) # rules) phones prono =
     (case re_sub pattern replacement phones of
        Inl e \<Rightarrow> Inl e
      | Inr phones' \<Rightarrow> phone2prono_loop re_sub rules phones' (Some phones'))"

definition phone2prono :: "re_sub \<Rightarrow> string \<Rightarrow> string list \<Rightarrow> string list \<Rightarrow> error + string" where
  "phone2prono re_sub phones rule_in rule_out =
     phone2prono_loop re_sub (zip rule_in rule_out) phones None"

text \<open>
  \<open>re.sub\<close> on the rules that are plain text: a pattern without metacharacters, a
  replacement without backslashes.
\<close>

definition re_sub_plain :: re_sub where
  "re_sub_plain pattern replacement phones = Inr (sub_literal pattern replacement phones)"

section \<open>add_phone_boundary\<close>

text \<open>
  The loop on the rest \<open>phones[ipos:]\<close> of the string. It runs while two characters
  are left; a marker \<open>-\<close> or \<open>#\<close> is copied and a space skipped, and the two characters
  after it are read, the second of which may be past the end.
\<close>

fun add_phone_boundary_loop :: "string \<Rightarrow> string \<Rightarrow> error + string" where
  "add_phone_boundary_loop (c # d # rest) newphones =
     (if c = CHR ''-'' then
        (case rest of [] \<Rightarrow> Inl IndexError
         | e # rest' \<Rightarrow> add_phone_boundary_loop rest' (newphones @ [c] @ [d, e] @ '','')) 
      else if c = CHR '' '' then
        (case rest of [] \<Rightarrow> Inl IndexError
         | e # rest' \<Rightarrow> add_phone_boundary_loop rest' (newphones @ [d, e] @ '',''))
      else if c = CHR ''#'' then
        (case rest of [] \<Rightarrow> Inl IndexError
         | e # rest' \<Rightarrow> add_phone_boundary_loop rest' (newphones @ [c] @ [d, e] @ '',''))
      else add_phone_boundary_loop rest (newphones @ [c, d] @ '',''))"
| "add_phone_boundary_loop phones newphones = Inr newphones"

definition add_phone_boundary :: "string \<Rightarrow> error + string" where
  "add_phone_boundary phones = add_phone_boundary_loop phones []"

section \<open>graph2prono\<close>

text \<open>Lines 385 to 388: the normalization of the first rule pass.\<close>

definition normalize_first :: "string \<Rightarrow> string" where
  "normalize_first prono =
     (let prono = sub_literal '','' '' '' prono;
          prono = sub_space_end prono;
          prono = sub_literal ''#'' ''-'' prono;
          prono = sub_hyphens prono
      in prono)"

text \<open>Lines 401 and 402: the normalization inside the loop.\<close>

definition normalize_loop :: "string \<Rightarrow> string" where
  "normalize_loop prono_new =
     (let prono_new = sub_literal '','' '' '' prono_new;
          prono_new = sub_space_end prono_new
      in prono_new)"

text \<open>Lines 400 to 402: \<open>prono_new\<close> from \<open>prono_prev\<close>.\<close>

definition loop_pass :: "re_sub \<Rightarrow> string list \<Rightarrow> string list \<Rightarrow> string \<Rightarrow> error + string" where
  "loop_pass re_sub rule_in rule_out prono_prev =
     (case phone2prono re_sub (sub_literal '' '' '','' (prono_prev @ '','')) rule_in rule_out of
        Inl e \<Rightarrow> Inl e
      | Inr prono_new \<Rightarrow> Inr (normalize_loop prono_new))"

text \<open>
  The \<open>while not identical\<close> loop. \<open>None\<close> is a loop that never ends, \<open>Some (Inl e)\<close> an
  exception, \<open>Some (Inr p)\<close> the returned string.
\<close>

partial_function (option) graph2prono_loop ::
  "re_sub \<Rightarrow> string list \<Rightarrow> string list \<Rightarrow> string \<Rightarrow> (error + string) option" where
  "graph2prono_loop re_sub rule_in rule_out prono_prev =
     (case loop_pass re_sub rule_in rule_out prono_prev of
        Inl e \<Rightarrow> Some (Inl e)
      | Inr prono_new \<Rightarrow>
          if sub_literal ''-'' '''' prono_prev = sub_literal ''-'' '''' prono_new
          then Some (Inr (sub_literal ''-'' '''' prono_new))
          else graph2prono_loop re_sub rule_in rule_out prono_new)"

definition graph2prono ::
  "re_sub \<Rightarrow> int list \<Rightarrow> string list \<Rightarrow> string list \<Rightarrow> (error + string) option" where
  "graph2prono re_sub graphs rule_in rule_out =
     (let romanized = graph2phone graphs
      in case add_phone_boundary romanized of
           Inl e \<Rightarrow> Some (Inl e)
         | Inr romanized_bd \<Rightarrow>
             (case phone2prono re_sub romanized_bd rule_in rule_out of
                Inl e \<Rightarrow> Some (Inl e)
              | Inr prono \<Rightarrow>
                  graph2prono_loop re_sub rule_in rule_out (normalize_first prono)))"

definition run_g2p ::
  "re_sub \<Rightarrow> int list \<Rightarrow> string list \<times> string list \<Rightarrow> (error + string) option" where
  "run_g2p re_sub graph rule =
     (case rule of (rule_in, rule_out) \<Rightarrow> graph2prono re_sub graph rule_in rule_out)"

section \<open>Notions the properties are stated with\<close>

text \<open>
  The fold of single-rule rewrites the specification describes for the rule engine:
  the first rule rewrites the input, the second rewrites that result, and so on through
  the table; with no rule the input is the result.
\<close>

fun rule_fold :: "re_sub \<Rightarrow> (string \<times> string) list \<Rightarrow> string \<Rightarrow> error + string" where
  "rule_fold re_sub [] phones = Inr phones"
| "rule_fold re_sub ((pattern, replacement) # rules) phones =
     (case re_sub pattern replacement phones of
        Inl e \<Rightarrow> Inl e
      | Inr phones' \<Rightarrow> rule_fold re_sub rules phones')"

text \<open>
  The sequence of iterates of the loop: \<open>passes \<dots> n p\<close> is the result of \<open>n\<close>
  successive passes that start from \<open>p\<close>, or the error of the first pass that raised.
\<close>

fun passes :: "re_sub \<Rightarrow> string list \<Rightarrow> string list \<Rightarrow> nat \<Rightarrow> string \<Rightarrow> error + string" where
  "passes re_sub rule_in rule_out 0 p = Inr p"
| "passes re_sub rule_in rule_out (Suc n) p =
     (case loop_pass re_sub rule_in rule_out p of
        Inl e \<Rightarrow> Inl e
      | Inr q \<Rightarrow> passes re_sub rule_in rule_out n q)"

text \<open>
  Iterating any pass function: \<open>iterate_pass f n p\<close> is the result of \<open>n\<close> successive
  applications of \<open>f\<close> that start from \<open>p\<close>, or the error of the first one that
  raised.
\<close>

fun iterate_pass :: "(string \<Rightarrow> error + string) \<Rightarrow> nat \<Rightarrow> string \<Rightarrow> error + string" where
  "iterate_pass f 0 p = Inr p"
| "iterate_pass f (Suc n) p =
     (case f p of Inl e \<Rightarrow> Inl e | Inr q \<Rightarrow> iterate_pass f n q)"

text \<open>The loop with a bound on the number of passes; \<open>None\<close> when the bound is reached.\<close>

fun graph2prono_fuel ::
  "nat \<Rightarrow> re_sub \<Rightarrow> string list \<Rightarrow> string list \<Rightarrow> string \<Rightarrow> (error + string) option" where
  "graph2prono_fuel 0 re_sub rule_in rule_out prono_prev = None"
| "graph2prono_fuel (Suc k) re_sub rule_in rule_out prono_prev =
     (case loop_pass re_sub rule_in rule_out prono_prev of
        Inl e \<Rightarrow> Some (Inl e)
      | Inr prono_new \<Rightarrow>
          if sub_literal ''-'' '''' prono_prev = sub_literal ''-'' '''' prono_new
          then Some (Inr (sub_literal ''-'' '''' prono_new))
          else graph2prono_fuel k re_sub rule_in rule_out prono_new)"

section \<open>The form of the strings between the stages\<close>

text \<open>
  The characters a phone code is made of, for the stages after \<open>graph2phone\<close>: anything
  but the space, the comma and the two markers.
\<close>

definition code_char :: "char \<Rightarrow> bool" where
  "code_char c \<longleftrightarrow> c \<noteq> CHR '' '' \<and> c \<noteq> CHR '','' \<and> c \<noteq> CHR ''-'' \<and> c \<noteq> CHR ''#''"

definition marker :: "char \<Rightarrow> bool" where
  "marker c \<longleftrightarrow> c = CHR ''-'' \<or> c = CHR ''#''"


text \<open>
  The form of a boundary-annotated phone stream, as \<open>add_phone_boundary\<close> produces it
  and as the rule engine reads it: groups of two code characters and a comma, each
  group with at most one marker in front.
\<close>

fun annotated :: "string \<Rightarrow> bool" where
  "annotated [] = True"
| "annotated (a # b # c # rest) =
     (if marker a then
        (case rest of
           [] \<Rightarrow> False
         | k # rest' \<Rightarrow> code_char b \<and> code_char c \<and> k = CHR '','' \<and> annotated rest')
      else code_char a \<and> code_char b \<and> c = CHR '','' \<and> annotated rest)"
| "annotated [a] = False"
| "annotated [a, b] = False"




text \<open>
  The form of the string inside \<open>graph2phone\<close>. After the walk every \<open>-\<close> is followed
  by a code character and every \<open>#\<close> by a \<open>-\<close> or the end (\<open>walk_form\<close>); after line
  332 every \<open>#\<close> is followed by a code character or the end (\<open>joined_form\<close>); in the
  result every marker is followed by a code character (\<open>marker_form\<close>). All the
  other characters are word characters, in blocks of even length (\<open>even_blocks\<close>, whose
  flag says that the block read so far has even length).
\<close>

fun walk_form :: "string \<Rightarrow> bool" where
  "walk_form [] = True"
| "walk_form (c # cs) =
     ((if c = CHR ''-'' then cs \<noteq> [] \<and> word_char (hd cs)
       else if c = CHR ''#'' then cs = [] \<or> hd cs = CHR ''-''
       else word_char c) \<and> walk_form cs)"

fun joined_form :: "string \<Rightarrow> bool" where
  "joined_form [] = True"
| "joined_form (c # cs) =
     ((if c = CHR ''-'' then cs \<noteq> [] \<and> word_char (hd cs)
       else if c = CHR ''#'' then cs = [] \<or> word_char (hd cs)
       else word_char c) \<and> joined_form cs)"




section \<open>Evaluation of the model on concrete inputs\<close>

lemmas graph2phone_eval =
  graph2phone_def graph2phone_cleanup_def syllable_def iONS_def iNUC_def iCOD_def
  ONS_def NUC_def COD_def is_hangul_def sub_caret_oh_def fix_run_def sub_nonword_end_def
  sub_caret_hyphen_def word_char_def

lemma table_lengths: "length ONS = 19" "length NUC = 21" "length COD = 28"
  by (simp_all add: ONS_def NUC_def COD_def)

section \<open>The syllable decomposition\<close>

text \<open>
  Claim C4. For every code point \<open>c\<close> of the Hangul syllable block, 44032 to 55203, the
  indices the decomposer computes from \<open>df = c - 44032\<close> are: onset \<open>df div 588\<close>, below
  19; nucleus \<open>(df mod 588) div 28\<close>, below 21; coda \<open>df mod 28\<close>, below 28; none is
  negative, each is inside its alphabet array, and
  \<open>44032 + onset * 588 + nucleus * 28 + coda\<close> is \<open>c\<close> again. The source's indices
  are 1-based, so the index into the array is \<open>iONS c - 1\<close>, and so on.
\<close>

theorem decomposition_indices_in_bounds:
  assumes "is_hangul c"
  shows "0 \<le> iONS c - 1 \<and> iONS c - 1 < 19 \<and> nat (iONS c - 1) < length ONS
       \<and> 0 \<le> iNUC c - 1 \<and> iNUC c - 1 < 21 \<and> nat (iNUC c - 1) < length NUC
       \<and> 0 \<le> iCOD c - 1 \<and> iCOD c - 1 < 28 \<and> nat (iCOD c - 1) < length COD
       \<and> iONS c - 1 = (c - 44032) div 588
       \<and> iNUC c - 1 = ((c - 44032) mod 588) div 28
       \<and> iCOD c - 1 = (c - 44032) mod 28
       \<and> 44032 + (iONS c - 1) * 588 + (iNUC c - 1) * 28 + (iCOD c - 1) = c"
proof -
  define df where "df = c - 44032"
  from assms have range: "0 \<le> df" "df \<le> 11171"
    by (simp_all add: is_hangul_def df_def)
  have ons: "iONS c - 1 = df div 588" and nuc: "iNUC c - 1 = (df mod 588) div 28"
    and cod: "iCOD c - 1 = (df mod 588) mod 28"
    by (simp_all add: iONS_def iNUC_def iCOD_def df_def)
  have cod': "(df mod 588) mod 28 = df mod 28"
    by (rule mod_mod_cancel) simp
  have o_hi: "df div 588 < 19" using range by simp
  have o_lo: "0 \<le> df div 588" using range by simp
  have n_hi: "(df mod 588) div 28 < 21" by simp
  have n_lo: "0 \<le> (df mod 588) div 28" by simp
  have c_hi: "df mod 28 < 28" and c_lo: "0 \<le> df mod 28" by simp_all
  have a: "df = (df div 588) * 588 + df mod 588" by simp
  have b: "df mod 588 = ((df mod 588) div 28) * 28 + df mod 28"
    using div_mult_mod_eq [of "df mod 588" 28] cod' by simp
  have re: "44032 + (df div 588) * 588 + ((df mod 588) div 28) * 28 + df mod 28 = c"
    using a b df_def by linarith
  have nats: "nat (df div 588) < 19" "nat (df mod 588 div 28) < 21" "nat (df mod 28) < 28"
    using o_hi n_hi c_hi by linarith+
  show ?thesis
    using o_hi o_lo n_hi n_lo c_hi c_lo re nats
    by (simp add: ons nuc cod cod' table_lengths flip: df_def)
qed

text \<open>The syllable U+BB3C (47932) has the indices 6, 13 and 8.\<close>

theorem decomposition_indices_in_bounds_witness:
  "is_hangul 47932 \<and> iONS 47932 - 1 = 6 \<and> iNUC 47932 - 1 = 13 \<and> iCOD 47932 - 1 = 8
   \<and> 44032 + 6 * 588 + 13 * 28 + 8 = (47932::int)"
proof -
  have h: "is_hangul 47932" by (simp add: is_hangul_def)
  show ?thesis using h decomposition_indices_in_bounds [OF h] by simp
qed

text \<open>
  Claim C9, as stated: the coda of the second syllable of the input U+C2A4 U+BB3C is
  \<open>lb\<close>. It is not: the coda index of 47932 is 8, and the entry 8 of \<open>COD\<close> is \<open>ll\<close>;
  \<open>lb\<close> is the entry 11.
\<close>

theorem seumul_coda_counterexample:
  "COD ! nat (iCOD 47932 - 1) \<noteq> ''lb''"
  by (simp add: iCOD_def COD_def)

text \<open>
  Claim C9, amended. For the input U+C2A4 U+BB3C both characters are Hangul syllables;
  the first decomposes into onset \<open>s0\<close> and nucleus \<open>xx\<close> with no coda, the second into
  onset \<open>mm\<close>, nucleus \<open>uu\<close> and coda \<open>ll\<close>, and \<open>graph2phone\<close> returns
  \<open>s0xx-mmuull\<close>.
\<close>

theorem seumul_decomposition:
  "is_hangul 49828 \<and> is_hangul 47932
   \<and> ONS ! nat (iONS 49828 - 1) = ''s0'' \<and> NUC ! nat (iNUC 49828 - 1) = ''xx''
   \<and> COD ! nat (iCOD 49828 - 1) = ''''
   \<and> ONS ! nat (iONS 47932 - 1) = ''mm'' \<and> NUC ! nat (iNUC 47932 - 1) = ''uu''
   \<and> COD ! nat (iCOD 47932 - 1) = ''ll''
   \<and> graph2phone [49828, 47932] = ''s0xx-mmuull''"
  by (simp add: graph2phone_eval)

section \<open>The cleanup after the walk\<close>

text \<open>
  Claim C7 says that the rewrite of a coda \<open>oh\<close> to \<open>ng\<close> keeps the boundary
  character that follows it. The substitution of line 329 replaces the whole match of
  \<open>oh([# ]|$)\<close> by \<open>ng\<close>, so the word marker after a coda \<open>oh\<close> is deleted: for
  U+C559, space, U+AC00 the walk gives \<open>-aaoh#-k0aa\<close>, the substitution gives
  \<open>-aang-k0aa\<close>, and \<open>graph2phone\<close> returns \<open>aang-k0aa\<close>, the same string as for the
  two syllables with no space between them. After another coda the marker stays:
  U+AC00, space, U+AC00 gives \<open>k0aa#k0aa\<close>.
\<close>

theorem coda_ng_drops_word_marker:
  "graph2phone_walk (zip [50521, 32, 44032] (check_char_type [50521, 32, 44032])) [] = ''-aaoh#-k0aa''
   \<and> sub_oh_boundary ''-aaoh#-k0aa'' = ''-aang-k0aa''
   \<and> graph2phone [50521, 32, 44032] = ''aang-k0aa''
   \<and> graph2phone [50521, 44032] = ''aang-k0aa''
   \<and> graph2phone [44032, 32, 44032] = ''k0aa#k0aa''"
  by (simp add: graph2phone_eval)

section \<open>The rule engine\<close>

text \<open>
  Once a first rule has run, the loop of \<open>phone2prono\<close> is the fold of the single-rule
  rewrites, and so is \<open>phone2prono\<close> on every table that holds a rule.
\<close>

lemma phone2prono_loop_fold:
  "phone2prono_loop re_sub rules phones (Some phones) = rule_fold re_sub rules phones"
  by (induction rules arbitrary: phones) (auto split: sum.splits)

lemma phone2prono_is_fold:
  assumes "zip rule_in rule_out \<noteq> []"
  shows "phone2prono re_sub phones rule_in rule_out
         = rule_fold re_sub (zip rule_in rule_out) phones"
proof -
  from assms obtain pattern replacement rules
    where z: "zip rule_in rule_out = (pattern, replacement) # rules"
    by (cases "zip rule_in rule_out") auto
  show ?thesis
    by (simp add: phone2prono_def z phone2prono_loop_fold split: sum.splits)
qed

text \<open>
  Claim C5 says that \<open>phone2prono\<close> is the fold of the single-rule rewrites for every
  rule table. On the table without rules (what \<open>read_rulebook\<close> returns for a file of
  comments) the fold is the identity, but the \<open>for\<close> loop never assigns \<open>prono\<close> and
  \<open>return prono\<close> raises \<open>UnboundLocalError\<close>, whatever \<open>re.sub\<close> does; so does the
  conversion entry point.
\<close>

theorem phone2prono_empty_table_raises:
  "phone2prono re_sub phones [] [] = Inl UnboundLocalError
   \<and> rule_fold re_sub (zip [] []) phones = Inr phones
   \<and> phone2prono re_sub_plain ''k0,aa,'' [] [] = Inl UnboundLocalError
   \<and> run_g2p re_sub_plain [44032] ([], []) = Some (Inl UnboundLocalError)"
  by (simp add: phone2prono_def run_g2p_def graph2prono_def graph2phone_eval
      add_phone_boundary_def)

section \<open>The loop of graph2prono\<close>

text \<open>
  The loop returns a value exactly when some bound on the number of passes lets the
  bounded loop return it.
\<close>

lemmas pass_eval =
  loop_pass_def phone2prono_def re_sub_plain_def normalize_loop_def normalize_first_def
  sub_space_end_def add_phone_boundary_def

lemma fuel_sound:
  "graph2prono_fuel k re_sub rule_in rule_out p = Some x
   \<Longrightarrow> graph2prono_loop re_sub rule_in rule_out p = Some x"
proof (induction k arbitrary: p)
  case 0
  then show ?case by simp
next
  case (Suc k)
  show ?case
  proof (cases "loop_pass re_sub rule_in rule_out p")
    case (Inl e)
    with Suc.prems show ?thesis
      by (subst graph2prono_loop.simps) auto
  next
    case (Inr q)
    show ?thesis
    proof (cases "sub_literal ''-'' '''' p = sub_literal ''-'' '''' q")
      case True
      with Inr Suc.prems show ?thesis
        by (subst graph2prono_loop.simps) simp
    next
      case False
      with Inr Suc.prems have "graph2prono_fuel k re_sub rule_in rule_out q = Some x"
        by simp
      then have "graph2prono_loop re_sub rule_in rule_out q = Some x"
        by (rule Suc.IH)
      with Inr False show ?thesis
        by (subst graph2prono_loop.simps) simp
    qed
  qed
qed

lemma fuel_complete:
  assumes "graph2prono_loop re_sub rule_in rule_out p = Some x"
  shows "\<exists>k. graph2prono_fuel k re_sub rule_in rule_out p = Some x"
proof (rule graph2prono_loop.raw_induct
    [where P = "\<lambda>re_sub rule_in rule_out p x.
                  \<exists>k. graph2prono_fuel k re_sub rule_in rule_out p = Some x",
     OF _ assms])
  fix loop :: "re_sub \<Rightarrow> string list \<Rightarrow> string list \<Rightarrow> string \<Rightarrow> (error + string) option"
  fix re_sub rule_in rule_out p x
  assume IH: "\<And>re_sub rule_in rule_out p x. loop re_sub rule_in rule_out p = Some x
               \<Longrightarrow> \<exists>k. graph2prono_fuel k re_sub rule_in rule_out p = Some x"
  assume body: "(case loop_pass re_sub rule_in rule_out p of
                   Inl e \<Rightarrow> Some (Inl e)
                 | Inr prono_new \<Rightarrow>
                     if sub_literal ''-'' [] p = sub_literal ''-'' [] prono_new
                     then Some (Inr (sub_literal ''-'' [] prono_new))
                     else loop re_sub rule_in rule_out prono_new) = Some x"
  show "\<exists>k. graph2prono_fuel k re_sub rule_in rule_out p = Some x"
  proof (cases "loop_pass re_sub rule_in rule_out p")
    case (Inl e)
    with body have "graph2prono_fuel (Suc 0) re_sub rule_in rule_out p = Some x"
      by auto
    then show ?thesis by blast
  next
    case (Inr q)
    show ?thesis
    proof (cases "sub_literal ''-'' [] p = sub_literal ''-'' [] q")
      case True
      with Inr body have "graph2prono_fuel (Suc 0) re_sub rule_in rule_out p = Some x"
        by simp
      then show ?thesis by blast
    next
      case False
      with Inr body have "loop re_sub rule_in rule_out q = Some x"
        by simp
      then obtain k where "graph2prono_fuel k re_sub rule_in rule_out q = Some x"
        using IH by blast
      with Inr False have "graph2prono_fuel (Suc k) re_sub rule_in rule_out p = Some x"
        by simp
      then show ?thesis by blast
    qed
  qed
qed

lemma loop_iff_fuel:
  "graph2prono_loop re_sub rule_in rule_out p = Some x
   \<longleftrightarrow> (\<exists>k. graph2prono_fuel k re_sub rule_in rule_out p = Some x)"
  using fuel_sound fuel_complete by blast

lemma passes_Suc_Inr:
  "passes re_sub rule_in rule_out (Suc n) p = Inr prev
   \<longleftrightarrow> (\<exists>q. loop_pass re_sub rule_in rule_out p = Inr q
            \<and> passes re_sub rule_in rule_out n q = Inr prev)"
  by (auto split: sum.splits)

lemma loop_step:
  assumes "loop_pass re_sub rule_in rule_out p = Inr q"
    and "sub_literal ''-'' [] p \<noteq> sub_literal ''-'' [] q"
  shows "graph2prono_loop re_sub rule_in rule_out p = graph2prono_loop re_sub rule_in rule_out q"
  using assms by (subst graph2prono_loop.simps) simp

lemma loop_stop:
  assumes "loop_pass re_sub rule_in rule_out p = Inr q"
    and "sub_literal ''-'' [] p = sub_literal ''-'' [] q"
  shows "graph2prono_loop re_sub rule_in rule_out p = Some (Inr (sub_literal ''-'' [] q))"
  using assms by (subst graph2prono_loop.simps) simp

lemma loop_raise:
  assumes "loop_pass re_sub rule_in rule_out p = Inl e"
  shows "graph2prono_loop re_sub rule_in rule_out p = Some (Inl e)"
  using assms by (subst graph2prono_loop.simps) simp

lemma passes_agree_loop_returns:
  assumes "passes re_sub rule_in rule_out n p = Inr prev"
    and "loop_pass re_sub rule_in rule_out prev = Inr new"
    and "sub_literal ''-'' [] prev = sub_literal ''-'' [] new"
    and "\<forall>m<n. \<forall>a b. passes re_sub rule_in rule_out m p = Inr a
            \<longrightarrow> loop_pass re_sub rule_in rule_out a = Inr b
            \<longrightarrow> sub_literal ''-'' [] a \<noteq> sub_literal ''-'' [] b"
  shows "graph2prono_loop re_sub rule_in rule_out p = Some (Inr (sub_literal ''-'' [] new))"
  using assms
proof (induction n arbitrary: p)
  case 0
  then show ?case by (simp add: loop_stop)
next
  case (Suc n)
  from Suc.prems(1) obtain q where q: "loop_pass re_sub rule_in rule_out p = Inr q"
    and rest: "passes re_sub rule_in rule_out n q = Inr prev"
    unfolding passes_Suc_Inr by blast
  have "passes re_sub rule_in rule_out 0 p = Inr p" by simp
  with Suc.prems(4) q have differ: "sub_literal ''-'' [] p \<noteq> sub_literal ''-'' [] q"
    by blast
  have later: "\<forall>m<n. \<forall>a b. passes re_sub rule_in rule_out m q = Inr a
            \<longrightarrow> loop_pass re_sub rule_in rule_out a = Inr b
            \<longrightarrow> sub_literal ''-'' [] a \<noteq> sub_literal ''-'' [] b"
  proof (intro allI impI)
    fix m a b
    assume "m < n" and a: "passes re_sub rule_in rule_out m q = Inr a"
      and b: "loop_pass re_sub rule_in rule_out a = Inr b"
    from a q have "passes re_sub rule_in rule_out (Suc m) p = Inr a" by simp
    with Suc.prems(4) \<open>m < n\<close> b show "sub_literal ''-'' [] a \<noteq> sub_literal ''-'' [] b"
      by (meson Suc_less_eq)
  qed
  from Suc.IH [OF rest Suc.prems(2) Suc.prems(3) later] loop_step [OF q differ]
  show ?case by simp
qed

lemma fuel_returns_passes:
  assumes "graph2prono_fuel k re_sub rule_in rule_out p = Some (Inr r)"
  shows "\<exists>n prev new. passes re_sub rule_in rule_out n p = Inr prev
           \<and> loop_pass re_sub rule_in rule_out prev = Inr new
           \<and> sub_literal ''-'' [] prev = sub_literal ''-'' [] new
           \<and> r = sub_literal ''-'' [] new
           \<and> (\<forall>m<n. \<forall>a b. passes re_sub rule_in rule_out m p = Inr a
                 \<longrightarrow> loop_pass re_sub rule_in rule_out a = Inr b
                 \<longrightarrow> sub_literal ''-'' [] a \<noteq> sub_literal ''-'' [] b)"
  using assms
proof (induction k arbitrary: p)
  case 0
  then show ?case by simp
next
  case (Suc k)
  from Suc.prems obtain q where q: "loop_pass re_sub rule_in rule_out p = Inr q"
    by (cases "loop_pass re_sub rule_in rule_out p") auto
  show ?case
  proof (cases "sub_literal ''-'' [] p = sub_literal ''-'' [] q")
    case True
    with q Suc.prems have "r = sub_literal ''-'' [] q" by simp
    with q True have "passes re_sub rule_in rule_out 0 p = Inr p
           \<and> loop_pass re_sub rule_in rule_out p = Inr q
           \<and> sub_literal ''-'' [] p = sub_literal ''-'' [] q
           \<and> r = sub_literal ''-'' [] q
           \<and> (\<forall>m<0. \<forall>a b. passes re_sub rule_in rule_out m p = Inr a
                 \<longrightarrow> loop_pass re_sub rule_in rule_out a = Inr b
                 \<longrightarrow> sub_literal ''-'' [] a \<noteq> sub_literal ''-'' [] b)"
      by simp
    then show ?thesis by blast
  next
    case False
    with q Suc.prems have "graph2prono_fuel k re_sub rule_in rule_out q = Some (Inr r)"
      by simp
    from Suc.IH [OF this] obtain n prev new
      where n: "passes re_sub rule_in rule_out n q = Inr prev"
        and new: "loop_pass re_sub rule_in rule_out prev = Inr new"
        and agree: "sub_literal ''-'' [] prev = sub_literal ''-'' [] new"
        and r: "r = sub_literal ''-'' [] new"
        and first: "\<forall>m<n. \<forall>a b. passes re_sub rule_in rule_out m q = Inr a
                 \<longrightarrow> loop_pass re_sub rule_in rule_out a = Inr b
                 \<longrightarrow> sub_literal ''-'' [] a \<noteq> sub_literal ''-'' [] b"
      by blast
    have "\<forall>m<Suc n. \<forall>a b. passes re_sub rule_in rule_out m p = Inr a
                 \<longrightarrow> loop_pass re_sub rule_in rule_out a = Inr b
                 \<longrightarrow> sub_literal ''-'' [] a \<noteq> sub_literal ''-'' [] b"
    proof (intro allI impI)
      fix m a b
      assume m: "m < Suc n" and a: "passes re_sub rule_in rule_out m p = Inr a"
        and b: "loop_pass re_sub rule_in rule_out a = Inr b"
      show "sub_literal ''-'' [] a \<noteq> sub_literal ''-'' [] b"
      proof (cases m)
        case 0
        with a b q False show ?thesis by simp
      next
        case (Suc m')
        with a q have "passes re_sub rule_in rule_out m' q = Inr a" by simp
        with first m Suc b show ?thesis by simp
      qed
    qed
    moreover from n q have "passes re_sub rule_in rule_out (Suc n) p = Inr prev" by simp
    ultimately show ?thesis using new agree r by blast
  qed
qed

lemma loop_returns_iff:
  "graph2prono_loop re_sub rule_in rule_out p = Some (Inr r)
   \<longleftrightarrow> (\<exists>n prev new. passes re_sub rule_in rule_out n p = Inr prev
           \<and> loop_pass re_sub rule_in rule_out prev = Inr new
           \<and> sub_literal ''-'' [] prev = sub_literal ''-'' [] new
           \<and> r = sub_literal ''-'' [] new
           \<and> (\<forall>m<n. \<forall>a b. passes re_sub rule_in rule_out m p = Inr a
                 \<longrightarrow> loop_pass re_sub rule_in rule_out a = Inr b
                 \<longrightarrow> sub_literal ''-'' [] a \<noteq> sub_literal ''-'' [] b))"
  (is "?L \<longleftrightarrow> ?R")
proof
  assume ?L
  then obtain k where "graph2prono_fuel k re_sub rule_in rule_out p = Some (Inr r)"
    using fuel_complete by blast
  then show ?R by (rule fuel_returns_passes)
next
  assume ?R
  then show ?L using passes_agree_loop_returns by blast
qed

lemma never_agree_fuel_None:
  assumes "\<forall>n. \<exists>a b. passes re_sub rule_in rule_out n p = Inr a
              \<and> loop_pass re_sub rule_in rule_out a = Inr b
              \<and> sub_literal ''-'' [] a \<noteq> sub_literal ''-'' [] b"
  shows "graph2prono_fuel k re_sub rule_in rule_out p = None"
  using assms
proof (induction k arbitrary: p)
  case 0
  then show ?case by simp
next
  case (Suc k)
  from Suc.prems [rule_format, of 0] obtain q
    where q: "loop_pass re_sub rule_in rule_out p = Inr q"
      and differ: "sub_literal ''-'' [] p \<noteq> sub_literal ''-'' [] q"
    by auto
  have "\<forall>n. \<exists>a b. passes re_sub rule_in rule_out n q = Inr a
              \<and> loop_pass re_sub rule_in rule_out a = Inr b
              \<and> sub_literal ''-'' [] a \<noteq> sub_literal ''-'' [] b"
  proof
    fix n
    from Suc.prems [rule_format, of "Suc n"] q
    show "\<exists>a b. passes re_sub rule_in rule_out n q = Inr a
              \<and> loop_pass re_sub rule_in rule_out a = Inr b
              \<and> sub_literal ''-'' [] a \<noteq> sub_literal ''-'' [] b"
      by simp
  qed
  from Suc.IH [OF this] q differ show ?case by simp
qed

lemma never_agree_loop_None:
  assumes "\<forall>n. \<exists>a b. passes re_sub rule_in rule_out n p = Inr a
              \<and> loop_pass re_sub rule_in rule_out a = Inr b
              \<and> sub_literal ''-'' [] a \<noteq> sub_literal ''-'' [] b"
  shows "graph2prono_loop re_sub rule_in rule_out p = None"
proof (cases "graph2prono_loop re_sub rule_in rule_out p")
  case None
  then show ?thesis .
next
  case (Some x)
  then obtain k where "graph2prono_fuel k re_sub rule_in rule_out p = Some x"
    using fuel_complete by blast
  with never_agree_fuel_None [OF assms, of k] show ?thesis by simp
qed

lemma loop_None_never_agree:
  assumes "graph2prono_loop re_sub rule_in rule_out p = None"
  shows "\<exists>a b. passes re_sub rule_in rule_out n p = Inr a
              \<and> loop_pass re_sub rule_in rule_out a = Inr b
              \<and> sub_literal ''-'' [] a \<noteq> sub_literal ''-'' [] b"
  using assms
proof (induction n arbitrary: p)
  case 0
  show ?case
  proof (cases "loop_pass re_sub rule_in rule_out p")
    case (Inl e)
    with 0 loop_raise show ?thesis by fastforce
  next
    case (Inr q)
    with 0 loop_stop have "sub_literal ''-'' [] p \<noteq> sub_literal ''-'' [] q" by fastforce
    with Inr show ?thesis by simp
  qed
next
  case (Suc n)
  show ?case
  proof (cases "loop_pass re_sub rule_in rule_out p")
    case (Inl e)
    with Suc.prems loop_raise show ?thesis by fastforce
  next
    case (Inr q)
    with Suc.prems loop_stop have differ: "sub_literal ''-'' [] p \<noteq> sub_literal ''-'' [] q"
      by fastforce
    with Inr Suc.prems loop_step have "graph2prono_loop re_sub rule_in rule_out q = None"
      by simp
    from Suc.IH [OF this] Inr show ?thesis by simp
  qed
qed

text \<open>Substitutions of a single character are maps and filters.\<close>

lemma sub_literal_char:
  "sub_literal [c] rep s = concat (map (\<lambda>x. if x = c then rep else [x]) s)"
  by (induction s) auto

lemma sub_literal_delete: "sub_literal [c] [] s = filter (\<lambda>x. x \<noteq> c) s"
  by (induction s) auto

lemma sub_literal_replace: "sub_literal [c] [d] s = map (\<lambda>x. if x = c then d else x) s"
  by (induction s) auto

text \<open>
  On a table that holds a rule, the pass of the loop is the re-annotation, the fold of
  the rules and the normalization, written out.
\<close>

lemma graph2prono_Inr_loop:
  assumes "graph2prono re_sub graphs rule_in rule_out = Some (Inr p)"
  shows "\<exists>romanized_bd prono.
           add_phone_boundary (graph2phone graphs) = Inr romanized_bd
         \<and> phone2prono re_sub romanized_bd rule_in rule_out = Inr prono
         \<and> graph2prono_loop re_sub rule_in rule_out (normalize_first prono) = Some (Inr p)"
  using assms by (auto simp: graph2prono_def split: sum.splits)

lemma passes_iterate:
  "passes re_sub rule_in rule_out n p = iterate_pass (loop_pass re_sub rule_in rule_out) n p"
  by (induction n arbitrary: p) (auto split: sum.splits)

lemma loop_pass_explicit:
  assumes "zip rule_in rule_out \<noteq> []"
  shows "loop_pass re_sub rule_in rule_out =
         (\<lambda>prev. case rule_fold re_sub (zip rule_in rule_out)
                         (map (\<lambda>c. if c = CHR '' '' then CHR '','' else c) (prev @ '','')) of
                    Inl e \<Rightarrow> Inl e
                  | Inr q \<Rightarrow> Inr (sub_space_end
                                    (map (\<lambda>c. if c = CHR '','' then CHR '' '' else c) q)))"
  by (rule ext)
    (simp add: loop_pass_def phone2prono_is_fold [OF assms] normalize_loop_def
      sub_literal_replace split: sum.splits)

lemma graph2prono_Inr_rules:
  assumes "graph2prono re_sub graphs rule_in rule_out = Some (Inr p)"
  shows "zip rule_in rule_out \<noteq> []"
proof
  assume empty: "zip rule_in rule_out = []"
  have "phone2prono re_sub bd rule_in rule_out = Inl UnboundLocalError" for bd
    unfolding phone2prono_def empty by simp

  with assms show False
    by (simp add: graph2prono_def split: sum.splits)
qed

lemma loop_returns_explicit:
  fixes re_sub :: re_sub and rule_in rule_out :: "string list"
  defines "pass \<equiv> \<lambda>prev.
             case rule_fold re_sub (zip rule_in rule_out)
                    (map (\<lambda>c. if c = CHR '' '' then CHR '','' else c) (prev @ '','')) of
               Inl e \<Rightarrow> Inl e
             | Inr q \<Rightarrow> Inr (sub_space_end
                               (map (\<lambda>c. if c = CHR '','' then CHR '' '' else c) q))"
  defines "unmarked \<equiv> filter (\<lambda>c. c \<noteq> CHR ''-'')"
  assumes nonempty: "zip rule_in rule_out \<noteq> []"
  shows "graph2prono_loop re_sub rule_in rule_out p0 = Some (Inr r)
   \<longleftrightarrow> (\<exists>n prev new.
          iterate_pass pass n p0 = Inr prev
        \<and> pass prev = Inr new
        \<and> unmarked prev = unmarked new
        \<and> r = unmarked new
        \<and> (\<forall>m<n. \<forall>a b. iterate_pass pass m p0 = Inr a
               \<longrightarrow> pass a = Inr b \<longrightarrow> unmarked a \<noteq> unmarked b))"
proof -
  have pass: "loop_pass re_sub rule_in rule_out = pass"
    unfolding pass_def by (rule loop_pass_explicit [OF nonempty])
  have iter: "passes re_sub rule_in rule_out n p = iterate_pass pass n p" for n p
    by (simp add: passes_iterate pass)
  have del: "sub_literal ''-'' [] s = unmarked s" for s
    by (simp add: unmarked_def sub_literal_delete)
  show ?thesis
    by (simp add: loop_returns_iff iter pass del)
qed

lemma graph2prono_Inr_first_pass:
  assumes "graph2prono re_sub graphs rule_in rule_out = Some (Inr p)"
  shows "\<exists>romanized_bd prono.
           add_phone_boundary (graph2phone graphs) = Inr romanized_bd
         \<and> rule_fold re_sub (zip rule_in rule_out) romanized_bd = Inr prono
         \<and> graph2prono_loop re_sub rule_in rule_out (normalize_first prono) = Some (Inr p)"
proof -
  from graph2prono_Inr_loop [OF assms] obtain romanized_bd prono
    where "add_phone_boundary (graph2phone graphs) = Inr romanized_bd"
      and "phone2prono re_sub romanized_bd rule_in rule_out = Inr prono"
      and "graph2prono_loop re_sub rule_in rule_out (normalize_first prono) = Some (Inr p)"
    by blast
  then show ?thesis
    using phone2prono_is_fold [OF graph2prono_Inr_rules [OF assms]] by auto
qed

text \<open>
  Claim C1. Write \<open>pass\<close> for one full pass on an iterate: the iterate gets a
  trailing comma and its spaces become commas (the re-annotation), the whole rule table
  is folded over it, commas become spaces and the trailing space is stripped; write
  \<open>unmarked\<close> for the deletion of every \<open>-\<close>. \<open>graph2prono\<close> returns the string
  \<open>r\<close> exactly when the table holds a rule, the boundaries were added, the first rule
  pass succeeded, and the iterates that start from its normalized result reach, after
  some number \<open>n\<close> of passes, an iterate \<open>prev\<close> whose next pass \<open>new\<close> is equal to it
  once both are unmarked, no earlier iterate being equal to its successor in that sense;
  \<open>r\<close> is \<open>new\<close> unmarked. While two successive iterates differ once unmarked, the next
  iterate is the full pass on the newer one.
\<close>

theorem graph2prono_returns_iff:
  fixes re_sub :: re_sub and rule_in rule_out :: "string list"
  defines "rules \<equiv> zip rule_in rule_out"
  defines "pass \<equiv> \<lambda>prev.
             case rule_fold re_sub rules
                    (map (\<lambda>c. if c = CHR '' '' then CHR '','' else c) (prev @ '','')) of
               Inl e \<Rightarrow> Inl e
             | Inr q \<Rightarrow> Inr (sub_space_end
                               (map (\<lambda>c. if c = CHR '','' then CHR '' '' else c) q))"
  defines "unmarked \<equiv> filter (\<lambda>c. c \<noteq> CHR ''-'')"
  shows "graph2prono re_sub graphs rule_in rule_out = Some (Inr r)
   \<longleftrightarrow> rules \<noteq> []
      \<and> (\<exists>romanized_bd prono n prev new.
          add_phone_boundary (graph2phone graphs) = Inr romanized_bd
        \<and> rule_fold re_sub rules romanized_bd = Inr prono
        \<and> iterate_pass pass n (normalize_first prono) = Inr prev
        \<and> pass prev = Inr new
        \<and> unmarked prev = unmarked new
        \<and> r = unmarked new
        \<and> (\<forall>m<n. \<forall>a b. iterate_pass pass m (normalize_first prono) = Inr a
               \<longrightarrow> pass a = Inr b \<longrightarrow> unmarked a \<noteq> unmarked b))"
proof (cases "rules = []")
  case True
  then have "graph2prono re_sub graphs rule_in rule_out \<noteq> Some (Inr r)"
    using graph2prono_Inr_rules [of re_sub graphs rule_in rule_out r] by (auto simp: rules_def)
  with True show ?thesis by simp
next
  case False
  then have nonempty: "zip rule_in rule_out \<noteq> []" by (simp add: rules_def)
  have pass: "loop_pass re_sub rule_in rule_out = pass"
    unfolding pass_def rules_def by (rule loop_pass_explicit [OF nonempty])
  have iter: "passes re_sub rule_in rule_out n p = iterate_pass pass n p" for n p
    by (simp add: passes_iterate pass)
  have fold: "phone2prono re_sub bd rule_in rule_out = rule_fold re_sub rules bd" for bd
    unfolding rules_def by (rule phone2prono_is_fold [OF nonempty])
  have del: "sub_literal ''-'' [] s = unmarked s" for s
    by (simp add: unmarked_def sub_literal_delete)
  show ?thesis
  proof (cases "add_phone_boundary (graph2phone graphs)")
    case (Inl e)
    then show ?thesis by (simp add: graph2prono_def)
  next
    case bd: (Inr romanized_bd)
    show ?thesis
    proof (cases "rule_fold re_sub rules romanized_bd")
      case (Inl e)
      with bd show ?thesis by (simp add: graph2prono_def fold)
    next
      case (Inr prono)
      with bd have "graph2prono re_sub graphs rule_in rule_out
                    = graph2prono_loop re_sub rule_in rule_out (normalize_first prono)"
        by (simp add: graph2prono_def fold)
      with bd Inr False show ?thesis
        by (simp add: loop_returns_iff iter pass del)
    qed
  qed
qed

text \<open>
  Two syllables U+AC00 U+AC00 with the rules \<open>cc,- \<rightarrow> cc,\<close>, \<open>bb, \<rightarrow> cc,\<close> and
  \<open>aa, \<rightarrow> bb,\<close>: the first pass gives \<open>k0 bb -k0 bb\<close>; the next pass gives
  \<open>k0 cc -k0 cc\<close>, which differs from it also without the \<open>-\<close>; the pass after that
  gives \<open>k0 cc k0 cc\<close>, which is another string but the same one without the \<open>-\<close>,
  and is returned unmarked.
\<close>

theorem graph2prono_returns_iff_witness:
  "graph2prono re_sub_plain [44032, 44032] [''cc,-'', ''bb,'', ''aa,''] [''cc,'', ''cc,'', ''bb,'']
     = Some (Inr ''k0 cc k0 cc'')
   \<and> loop_pass re_sub_plain [''cc,-'', ''bb,'', ''aa,''] [''cc,'', ''cc,'', ''bb,'']
         ''k0 bb -k0 bb'' = Inr ''k0 cc -k0 cc''
   \<and> loop_pass re_sub_plain [''cc,-'', ''bb,'', ''aa,''] [''cc,'', ''cc,'', ''bb,'']
         ''k0 cc -k0 cc'' = Inr ''k0 cc k0 cc''
   \<and> filter (\<lambda>c. c \<noteq> CHR ''-'') ''k0 bb -k0 bb'' \<noteq> filter (\<lambda>c. c \<noteq> CHR ''-'') ''k0 cc -k0 cc''
   \<and> ''k0 cc -k0 cc'' \<noteq> ''k0 cc k0 cc''
   \<and> filter (\<lambda>c. c \<noteq> CHR ''-'') ''k0 cc -k0 cc'' = filter (\<lambda>c. c \<noteq> CHR ''-'') ''k0 cc k0 cc''"
proof -
  let ?rin = "[''cc,-'', ''bb,'', ''aa,'']" and ?rout = "[''cc,'', ''cc,'', ''bb,'']"
  let ?pass = "\<lambda>prev.
             case rule_fold re_sub_plain (zip ?rin ?rout)
                    (map (\<lambda>c. if c = CHR '' '' then CHR '','' else c) (prev @ '','')) of
               Inl e \<Rightarrow> Inl e
             | Inr q \<Rightarrow> Inr (sub_space_end
                               (map (\<lambda>c. if c = CHR '','' then CHR '' '' else c) q))"
  have bd: "add_phone_boundary (graph2phone [44032, 44032]) = Inr ''k0,aa,-k0,aa,''"
    by (simp add: graph2phone_eval add_phone_boundary_def)
  have first: "rule_fold re_sub_plain (zip ?rin ?rout) ''k0,aa,-k0,aa,'' = Inr ''k0,bb,-k0,bb,''"
    by (simp add: re_sub_plain_def)
  have norm: "normalize_first ''k0,bb,-k0,bb,'' = ''k0 bb -k0 bb''"
    by (simp add: pass_eval)
  have p1: "?pass ''k0 bb -k0 bb'' = Inr ''k0 cc -k0 cc''"
    by (simp add: re_sub_plain_def sub_space_end_def)
  have p2: "?pass ''k0 cc -k0 cc'' = Inr ''k0 cc k0 cc''"
    by (simp add: re_sub_plain_def sub_space_end_def)
  have it1: "iterate_pass ?pass 1 ''k0 bb -k0 bb'' = Inr ''k0 cc -k0 cc''"
    using p1 by simp
  have first_agreement:
    "\<forall>m<1. \<forall>a b. iterate_pass ?pass m (normalize_first ''k0,bb,-k0,bb,'') = Inr a
        \<longrightarrow> ?pass a = Inr b
        \<longrightarrow> filter (\<lambda>c. c \<noteq> CHR ''-'') a \<noteq> filter (\<lambda>c. c \<noteq> CHR ''-'') b"
    using p1 by (auto simp: norm)
  have "zip ?rin ?rout \<noteq> []
      \<and> (\<exists>romanized_bd prono n prev new.
          add_phone_boundary (graph2phone [44032, 44032]) = Inr romanized_bd
        \<and> rule_fold re_sub_plain (zip ?rin ?rout) romanized_bd = Inr prono
        \<and> iterate_pass ?pass n (normalize_first prono) = Inr prev
        \<and> ?pass prev = Inr new
        \<and> filter (\<lambda>c. c \<noteq> CHR ''-'') prev = filter (\<lambda>c. c \<noteq> CHR ''-'') new
        \<and> ''k0 cc k0 cc'' = filter (\<lambda>c. c \<noteq> CHR ''-'') new
        \<and> (\<forall>m<n. \<forall>a b. iterate_pass ?pass m (normalize_first prono) = Inr a
               \<longrightarrow> ?pass a = Inr b
               \<longrightarrow> filter (\<lambda>c. c \<noteq> CHR ''-'') a \<noteq> filter (\<lambda>c. c \<noteq> CHR ''-'') b))"
    apply (rule conjI)
     apply simp
    apply (rule exI [of _ "''k0,aa,-k0,aa,''"])
    apply (rule exI [of _ "''k0,bb,-k0,bb,''"])
    apply (rule exI [of _ 1])
    apply (rule exI [of _ "''k0 cc -k0 cc''"])
    apply (rule exI [of _ "''k0 cc k0 cc''"])
    apply (intro conjI)
          apply (rule bd)
         apply (rule first)
        apply (simp only: norm it1)
       apply (rule p2)
      apply simp
     apply simp
    apply (rule first_agreement)
    done
  then have "graph2prono re_sub_plain [44032, 44032] ?rin ?rout = Some (Inr ''k0 cc k0 cc'')"
    using graph2prono_returns_iff [of re_sub_plain "[44032, 44032]" ?rin ?rout "''k0 cc k0 cc''"]
    by blast
  moreover have "loop_pass re_sub_plain ?rin ?rout ''k0 bb -k0 bb'' = Inr ''k0 cc -k0 cc''"
    and "loop_pass re_sub_plain ?rin ?rout ''k0 cc -k0 cc'' = Inr ''k0 cc k0 cc''"
    by (simp_all add: pass_eval)
  ultimately show ?thesis by simp
qed

section \<open>Termination and fixed points\<close>

lemma oscillation:
  "passes re_sub_plain [''aa,'', ''bb,'', ''cc,''] [''cc,'', ''aa,'', ''bb,''] n ''k0 bb''
     = Inr (if even n then ''k0 bb'' else ''k0 aa'')
   \<and> passes re_sub_plain [''aa,'', ''bb,'', ''cc,''] [''cc,'', ''aa,'', ''bb,''] n ''k0 aa''
     = Inr (if even n then ''k0 aa'' else ''k0 bb'')"
proof (induction n)
  case 0
  show ?case by simp
next
  case (Suc n)
  have "loop_pass re_sub_plain [''aa,'', ''bb,'', ''cc,''] [''cc,'', ''aa,'', ''bb,''] ''k0 bb''
        = Inr ''k0 aa''"
    and "loop_pass re_sub_plain [''aa,'', ''bb,'', ''cc,''] [''cc,'', ''aa,'', ''bb,''] ''k0 aa''
        = Inr ''k0 bb''"
    by (simp_all add: pass_eval)
  with Suc show ?case by simp
qed

text \<open>
  Claim C8 says that the loop stops after a bounded number of iterations and raises a
  ``rule convergence exceeded'' error on a rule table that reaches no fixed point. The
  source has no counter that ends the loop (\<open>loop_cnt\<close> is only printed) and no such
  error. With the rules \<open>aa, \<rightarrow> cc,\<close>, \<open>bb, \<rightarrow> aa,\<close> and \<open>cc, \<rightarrow> bb,\<close> the iterates of
  the syllable U+AC00 alternate between \<open>k0 bb\<close> and \<open>k0 aa\<close>, and \<open>graph2prono\<close>
  neither returns nor raises.
\<close>

theorem oscillating_rules_never_return:
  "graph2prono re_sub_plain [44032] [''aa,'', ''bb,'', ''cc,''] [''cc,'', ''aa,'', ''bb,''] = None"
proof -
  let ?rin = "[''aa,'', ''bb,'', ''cc,'']" and ?rout = "[''cc,'', ''aa,'', ''bb,'']"
  have bd: "add_phone_boundary (graph2phone [44032]) = Inr ''k0,aa,''"
    by (simp add: graph2phone_eval add_phone_boundary_def)
  have first: "phone2prono re_sub_plain ''k0,aa,'' ?rin ?rout = Inr ''k0,bb,''"
    by (simp add: pass_eval)
  have norm: "normalize_first ''k0,bb,'' = ''k0 bb''"
    by (simp add: pass_eval)
  have p1: "loop_pass re_sub_plain ?rin ?rout ''k0 bb'' = Inr ''k0 aa''"
    and p2: "loop_pass re_sub_plain ?rin ?rout ''k0 aa'' = Inr ''k0 bb''"
    by (simp_all add: pass_eval)
  have "\<forall>n. \<exists>a b. passes re_sub_plain ?rin ?rout n ''k0 bb'' = Inr a
              \<and> loop_pass re_sub_plain ?rin ?rout a = Inr b
              \<and> sub_literal ''-'' [] a \<noteq> sub_literal ''-'' [] b"
  proof
    fix n
    show "\<exists>a b. passes re_sub_plain ?rin ?rout n ''k0 bb'' = Inr a
              \<and> loop_pass re_sub_plain ?rin ?rout a = Inr b
              \<and> sub_literal ''-'' [] a \<noteq> sub_literal ''-'' [] b"
      using oscillation [of n] p1 p2 by (cases "even n") simp_all
  qed
  then have "graph2prono_loop re_sub_plain ?rin ?rout ''k0 bb'' = None"
    by (rule never_agree_loop_None)
  with bd first norm show ?thesis
    by (simp add: graph2prono_def)
qed

text \<open>
  Claim C8, amended. The loop has no iteration cap and no convergence error:
  \<open>graph2prono\<close> runs forever exactly when the boundaries were added, the first rule
  pass succeeded, and every iterate that follows is produced without an error and
  differs from its successor after every \<open>-\<close> is deleted from both.
\<close>

theorem graph2prono_runs_forever_iff:
  "graph2prono re_sub graphs rule_in rule_out = None
   \<longleftrightarrow> (\<exists>romanized_bd prono.
          add_phone_boundary (graph2phone graphs) = Inr romanized_bd
        \<and> phone2prono re_sub romanized_bd rule_in rule_out = Inr prono
        \<and> (\<forall>n. \<exists>a b. passes re_sub rule_in rule_out n (normalize_first prono) = Inr a
               \<and> loop_pass re_sub rule_in rule_out a = Inr b
               \<and> sub_literal ''-'' [] a \<noteq> sub_literal ''-'' [] b))"
proof (cases "add_phone_boundary (graph2phone graphs)")
  case (Inl e)
  then show ?thesis by (simp add: graph2prono_def)
next
  case bd: (Inr romanized_bd)
  show ?thesis
  proof (cases "phone2prono re_sub romanized_bd rule_in rule_out")
    case (Inl e)
    with bd show ?thesis by (simp add: graph2prono_def)
  next
    case (Inr prono)
    with bd have "graph2prono re_sub graphs rule_in rule_out
                  = graph2prono_loop re_sub rule_in rule_out (normalize_first prono)"
      by (simp add: graph2prono_def)
    with bd Inr show ?thesis
      using never_agree_loop_None [of re_sub rule_in rule_out "normalize_first prono"]
        loop_None_never_agree [of re_sub rule_in rule_out "normalize_first prono"]
      by auto
  qed
qed

text \<open>
  Claim C2 says that one more pass on the returned string gives the returned string.
  The returned string has lost its \<open>-\<close> markers, so a rule that the marker kept from
  matching matches now: with the rule \<open>aa,k0, \<rightarrow> aa,kk,\<close> the two syllables U+AC00
  U+AC00 give \<open>k0 aa k0 aa\<close>, and one more pass on that gives \<open>k0 aa kk aa\<close>.
\<close>

theorem result_not_a_fixed_point:
  "graph2prono re_sub_plain [44032, 44032] [''aa,k0,''] [''aa,kk,''] = Some (Inr ''k0 aa k0 aa'')
   \<and> loop_pass re_sub_plain [''aa,k0,''] [''aa,kk,''] ''k0 aa k0 aa'' = Inr ''k0 aa kk aa''"
proof -
  let ?rin = "[''aa,k0,'']" and ?rout = "[''aa,kk,'']"
  have bd: "add_phone_boundary (graph2phone [44032, 44032]) = Inr ''k0,aa,-k0,aa,''"
    by (simp add: graph2phone_eval add_phone_boundary_def)
  have first: "phone2prono re_sub_plain ''k0,aa,-k0,aa,'' ?rin ?rout = Inr ''k0,aa,-k0,aa,''"
    by (simp add: pass_eval)
  have norm: "normalize_first ''k0,aa,-k0,aa,'' = ''k0 aa -k0 aa''"
    by (simp add: pass_eval)
  have p1: "loop_pass re_sub_plain ?rin ?rout ''k0 aa -k0 aa'' = Inr ''k0 aa -k0 aa''"
    by (simp add: pass_eval)
  have "graph2prono_loop re_sub_plain ?rin ?rout ''k0 aa -k0 aa''
        = Some (Inr (sub_literal ''-'' [] ''k0 aa -k0 aa''))"
    using p1 by (rule loop_stop) simp
  with bd first norm have "graph2prono re_sub_plain [44032, 44032] ?rin ?rout
                           = Some (Inr ''k0 aa k0 aa'')"
    by (simp add: graph2prono_def)
  moreover have "loop_pass re_sub_plain ?rin ?rout ''k0 aa k0 aa'' = Inr ''k0 aa kk aa''"
    by (simp add: pass_eval)
  ultimately show ?thesis by simp
qed

text \<open>
  Claim C2, amended. With \<open>pass\<close> and \<open>unmarked\<close> as for C1: when \<open>graph2prono\<close>
  returns \<open>p\<close>, the run reached an iterate \<open>prev\<close> (the result of \<open>n\<close> passes from the
  normalized first pass, none of the earlier iterates being equal to its successor once
  unmarked) of which \<open>p\<close> is the unmarked form, and one more pass on \<open>prev\<close> (not on
  \<open>p\<close>) gives a string whose unmarked form is \<open>p\<close> again.
\<close>

theorem result_fixed_modulo_markers:
  fixes re_sub :: re_sub and rule_in rule_out :: "string list"
  defines "rules \<equiv> zip rule_in rule_out"
  defines "pass \<equiv> \<lambda>prev.
             case rule_fold re_sub rules
                    (map (\<lambda>c. if c = CHR '' '' then CHR '','' else c) (prev @ '','')) of
               Inl e \<Rightarrow> Inl e
             | Inr q \<Rightarrow> Inr (sub_space_end
                               (map (\<lambda>c. if c = CHR '','' then CHR '' '' else c) q))"
  defines "unmarked \<equiv> filter (\<lambda>c. c \<noteq> CHR ''-'')"
  assumes ret: "graph2prono re_sub graphs rule_in rule_out = Some (Inr p)"
  shows "\<exists>romanized_bd prono n prev new.
          add_phone_boundary (graph2phone graphs) = Inr romanized_bd
        \<and> rule_fold re_sub rules romanized_bd = Inr prono
        \<and> iterate_pass pass n (normalize_first prono) = Inr prev
        \<and> (\<forall>m<n. \<forall>a b. iterate_pass pass m (normalize_first prono) = Inr a
               \<longrightarrow> pass a = Inr b \<longrightarrow> unmarked a \<noteq> unmarked b)
        \<and> pass prev = Inr new
        \<and> unmarked prev = p
        \<and> unmarked new = p"
proof -
  from graph2prono_Inr_first_pass [OF ret] obtain romanized_bd prono
    where bd: "add_phone_boundary (graph2phone graphs) = Inr romanized_bd"
      and first: "rule_fold re_sub rules romanized_bd = Inr prono"
      and loop: "graph2prono_loop re_sub rule_in rule_out (normalize_first prono) = Some (Inr p)"
    unfolding rules_def by blast
  from loop obtain n prev new
    where "iterate_pass pass n (normalize_first prono) = Inr prev"
      and "pass prev = Inr new"
      and "unmarked prev = unmarked new"
      and "p = unmarked new"
      and "\<forall>m<n. \<forall>a b. iterate_pass pass m (normalize_first prono) = Inr a
               \<longrightarrow> pass a = Inr b \<longrightarrow> unmarked a \<noteq> unmarked b"
    unfolding loop_returns_explicit [OF graph2prono_Inr_rules [OF ret]]
      pass_def rules_def unmarked_def
    by blast
  with bd first show ?thesis by auto
qed

text \<open>The input of the counterexample: \<open>prev\<close> is \<open>k0 aa -k0 aa\<close>.\<close>

theorem result_fixed_modulo_markers_witness:
  "graph2prono re_sub_plain [44032, 44032] [''aa,k0,''] [''aa,kk,''] = Some (Inr ''k0 aa k0 aa'')
   \<and> (\<exists>romanized_bd prono n prev new.
          add_phone_boundary (graph2phone [44032, 44032]) = Inr romanized_bd
        \<and> rule_fold re_sub_plain (zip [''aa,k0,''] [''aa,kk,'']) romanized_bd = Inr prono
        \<and> iterate_pass (loop_pass re_sub_plain [''aa,k0,''] [''aa,kk,'']) n
             (normalize_first prono) = Inr prev
        \<and> loop_pass re_sub_plain [''aa,k0,''] [''aa,kk,''] prev = Inr new
        \<and> filter (\<lambda>c. c \<noteq> CHR ''-'') prev = ''k0 aa k0 aa''
        \<and> filter (\<lambda>c. c \<noteq> CHR ''-'') new = ''k0 aa k0 aa'')"
proof -
  let ?rin = "[''aa,k0,'']" and ?rout = "[''aa,kk,'']"
  have bd: "add_phone_boundary (graph2phone [44032, 44032]) = Inr ''k0,aa,-k0,aa,''"
    by (simp add: graph2phone_eval add_phone_boundary_def)
  have first: "phone2prono re_sub_plain ''k0,aa,-k0,aa,'' ?rin ?rout = Inr ''k0,aa,-k0,aa,''"
    by (simp add: pass_eval)
  have norm: "normalize_first ''k0,aa,-k0,aa,'' = ''k0 aa -k0 aa''"
    by (simp add: pass_eval)
  have p1: "loop_pass re_sub_plain ?rin ?rout ''k0 aa -k0 aa'' = Inr ''k0 aa -k0 aa''"
    by (simp add: pass_eval)
  have "graph2prono_loop re_sub_plain ?rin ?rout ''k0 aa -k0 aa''
        = Some (Inr (sub_literal ''-'' [] ''k0 aa -k0 aa''))"
    using p1 by (rule loop_stop) simp
  with bd first norm have h: "graph2prono re_sub_plain [44032, 44032] ?rin ?rout
                           = Some (Inr ''k0 aa k0 aa'')"
    by (simp add: graph2prono_def)
  have nonempty: "zip ?rin ?rout \<noteq> []" by simp
  from result_fixed_modulo_markers [OF h] h show ?thesis
    unfolding loop_pass_explicit [OF nonempty] by blast
qed

section \<open>The two normalizations\<close>

lemma sub_space_end_cases:
  obtains (space) xs where "s = xs @ '' ''" and "sub_space_end s = xs"
  | (newline) xs where "s = xs @ [CHR '' '', CHR 0x0A]" and "sub_space_end s = xs @ [CHR 0x0A]"
  | (same) "sub_space_end s = s"
proof (cases "s \<noteq> [] \<and> last s = CHR '' ''")
  case True
  then have "s = butlast s @ '' ''" and "sub_space_end s = butlast s"
    using append_butlast_last_id [of s] by (simp_all add: sub_space_end_def)
  then show ?thesis by (rule space)
next
  case no_space: False
  show ?thesis
  proof (cases "2 \<le> length s \<and> last s = CHR 0x0A \<and> last (butlast s) = CHR '' ''")
    case True
    then have "length (butlast s) \<noteq> 0" by simp
    then have "butlast s \<noteq> []" by (simp del: length_butlast)
    then have "s \<noteq> []" and "butlast s \<noteq> []" by auto

    with True have "s = butlast s @ [CHR 0x0A]"
      and "butlast s = butlast (butlast s) @ '' ''"
      using append_butlast_last_id [of s] append_butlast_last_id [of "butlast s"]
      by simp_all
    then have "s = butlast (butlast s) @ [CHR '' '', CHR 0x0A]"
      by (metis append.assoc append_Cons append_Nil)
    moreover from True no_space
    have "sub_space_end s = butlast (butlast s) @ [CHR 0x0A]"
      by (simp add: sub_space_end_def)
    ultimately show ?thesis by (rule newline)
  next
    case False
    with no_space have "sub_space_end s = s"
      unfolding sub_space_end_def by presburger

    then show ?thesis by (rule same)
  qed
qed

lemma filter_sub_space_end:
  assumes "\<not> P (CHR '' '')"
  shows "filter P (sub_space_end s) = filter P s"
  using assms by (cases s rule: sub_space_end_cases) simp_all

lemma set_sub_space_end: "set (sub_space_end s) \<subseteq> set s"
  by (cases s rule: sub_space_end_cases) auto

lemma filter_sub_literal_replace:
  "\<not> P c \<Longrightarrow> \<not> P d \<Longrightarrow> filter P (sub_literal [c] [d] s) = filter P s"
  by (induction s) auto

lemma set_sub_hyphens: "set (sub_hyphens s) \<subseteq> set s"
  by (induction s rule: sub_hyphens.induct) auto

lemma sub_hyphens_head: "sub_hyphens (c # cs) \<noteq> [] \<and> hd (sub_hyphens (c # cs)) = c"
  by (induction "c # cs" arbitrary: c cs rule: sub_hyphens.induct) auto

lemma sub_hyphens_collapsed: "\<not> sublist ''--'' (sub_hyphens s)"
proof (induction s rule: sub_hyphens.induct)
  case (1 c d cs)
  obtain t where t: "sub_hyphens (d # cs) = d # t"
    using sub_hyphens_head [of d cs] by (cases "sub_hyphens (d # cs)") auto
  with 1 show ?case
    by (auto simp: sublist_Cons_right)
qed (simp_all add: sublist_Cons_right)

text \<open>
  What the two normalizations do. The one inside the loop replaces every comma by a space
  and strips the space that the trailing comma became, and nothing else: the \<open>#\<close> and
  \<open>-\<close> of the rule pass's result are all kept, in their order. The one before the loop
  goes on to replace \<open>#\<close> by \<open>-\<close> and to collapse the runs of \<open>-\<close>; its result
  holds no comma, no \<open>#\<close> and no two adjacent \<open>-\<close>.
\<close>

lemma loop_normalization_keeps_markers:
  "filter (\<lambda>c. c = CHR ''#'' \<or> c = CHR ''-'') (normalize_loop prono)
     = filter (\<lambda>c. c = CHR ''#'' \<or> c = CHR ''-'') prono
   \<and> CHR '','' \<notin> set (normalize_loop prono)
   \<and> normalize_loop (prono @ '','') = sub_literal '','' '' '' prono
   \<and> normalize_first prono = sub_hyphens (sub_literal ''#'' ''-'' (normalize_loop prono))
   \<and> CHR '','' \<notin> set (normalize_first prono)
   \<and> CHR ''#'' \<notin> set (normalize_first prono)
   \<and> \<not> sublist ''--'' (normalize_first prono)"
proof -
  have markers: "filter (\<lambda>c. c = CHR ''#'' \<or> c = CHR ''-'') (normalize_loop prono)
     = filter (\<lambda>c. c = CHR ''#'' \<or> c = CHR ''-'') prono"
    by (simp add: normalize_loop_def filter_sub_space_end filter_sub_literal_replace)

  have commas: "CHR '','' \<notin> set (normalize_loop prono)"
    using set_sub_space_end [of "sub_literal '','' '' '' prono"]
    by (auto simp: normalize_loop_def sub_literal_replace)
  have trailing: "normalize_loop (prono @ '','') = sub_literal '','' '' '' prono"
    by (simp add: normalize_loop_def sub_literal_replace sub_space_end_def)
  have first: "normalize_first prono = sub_hyphens (sub_literal ''#'' ''-'' (normalize_loop prono))"
    by (simp add: normalize_first_def normalize_loop_def)
  have commas1: "CHR '','' \<notin> set (normalize_first prono)"
    using commas set_sub_hyphens [of "sub_literal ''#'' ''-'' (normalize_loop prono)"]
    by (auto simp: first sub_literal_replace)
  have hashes: "CHR ''#'' \<notin> set (normalize_first prono)"
    using set_sub_hyphens [of "sub_literal ''#'' ''-'' (normalize_loop prono)"]
    by (auto simp: first sub_literal_replace)
  have runs: "\<not> sublist ''--'' (normalize_first prono)"
    by (simp add: first sub_hyphens_collapsed)
  from markers commas trailing first commas1 hashes runs show ?thesis by blast
qed

text \<open>
  Claim C3 says that the normalization of every iteration replaces \<open>#\<close> by \<open>-\<close> and
  collapses runs of \<open>-\<close>, as the normalization of lines 385 to 388 does for the first
  pass. Lines 401 and 402 do neither, and the difference reaches the result: the rule
  output \<open>#cc,\<close> gives \<open>k0 cc\<close> when the rule \<open>aa, \<rightarrow> #cc,\<close> fires in the first pass,
  and \<open>k0 #cc\<close>, with the word marker left in the returned string, when the rules
  \<open>bb, \<rightarrow> #cc,\<close> and \<open>aa, \<rightarrow> bb,\<close> produce it in a later pass. The rule result
  \<open>k0,#cc,--,\<close> is normalized to \<open>k0 -cc -\<close> before the loop, to \<open>k0 #cc --\<close> inside it.
\<close>

theorem late_word_marker_not_normalized:
  "run_g2p re_sub_plain [44032] ([''aa,''], [''#cc,'']) = Some (Inr ''k0 cc'')
   \<and> run_g2p re_sub_plain [44032] ([''bb,'', ''aa,''], [''#cc,'', ''bb,'']) = Some (Inr ''k0 #cc'')
   \<and> loop_pass re_sub_plain [''bb,'', ''aa,''] [''#cc,'', ''bb,''] ''k0 bb'' = Inr ''k0 #cc''
   \<and> normalize_loop ''k0,#cc,--,'' = ''k0 #cc --''
   \<and> normalize_first ''k0,#cc,--,'' = ''k0 -cc -''"
proof -
  have bd: "add_phone_boundary (graph2phone [44032]) = Inr ''k0,aa,''"
    by (simp add: graph2phone_eval add_phone_boundary_def)
  have early: "run_g2p re_sub_plain [44032] ([''aa,''], [''#cc,'']) = Some (Inr ''k0 cc'')"
  proof -
    have first: "phone2prono re_sub_plain ''k0,aa,'' [''aa,''] [''#cc,''] = Inr ''k0,#cc,''"
      by (simp add: pass_eval)
    have norm: "normalize_first ''k0,#cc,'' = ''k0 -cc''"
      by (simp add: pass_eval)
    have p1: "loop_pass re_sub_plain [''aa,''] [''#cc,''] ''k0 -cc'' = Inr ''k0 -cc''"
      by (simp add: pass_eval)
    have "graph2prono_loop re_sub_plain [''aa,''] [''#cc,''] ''k0 -cc''
          = Some (Inr (sub_literal ''-'' [] ''k0 -cc''))"
      using p1 by (rule loop_stop) simp
    with bd first norm show ?thesis
      by (simp add: graph2prono_def run_g2p_def)
  qed
  have late: "run_g2p re_sub_plain [44032] ([''bb,'', ''aa,''], [''#cc,'', ''bb,''])
              = Some (Inr ''k0 #cc'')"
  proof -
    let ?rin = "[''bb,'', ''aa,'']" and ?rout = "[''#cc,'', ''bb,'']"
    have first: "phone2prono re_sub_plain ''k0,aa,'' ?rin ?rout = Inr ''k0,bb,''"
      by (simp add: pass_eval)
    have norm: "normalize_first ''k0,bb,'' = ''k0 bb''"
      by (simp add: pass_eval)
    have p1: "loop_pass re_sub_plain ?rin ?rout ''k0 bb'' = Inr ''k0 #cc''"
      by (simp add: pass_eval)
    have p2: "loop_pass re_sub_plain ?rin ?rout ''k0 #cc'' = Inr ''k0 #cc''"
      by (simp add: pass_eval)
    have "graph2prono_loop re_sub_plain ?rin ?rout ''k0 #cc''
          = Some (Inr (sub_literal ''-'' [] ''k0 #cc''))"
      using p2 by (rule loop_stop) simp
    moreover have "graph2prono_loop re_sub_plain ?rin ?rout ''k0 bb''
          = graph2prono_loop re_sub_plain ?rin ?rout ''k0 #cc''"
      using p1 by (rule loop_step) simp
    ultimately show ?thesis
      using bd first norm by (simp add: graph2prono_def run_g2p_def)
  qed
  have "loop_pass re_sub_plain [''bb,'', ''aa,''] [''#cc,'', ''bb,''] ''k0 bb'' = Inr ''k0 #cc''"
    and "normalize_loop ''k0,#cc,--,'' = ''k0 #cc --''"
    and "normalize_first ''k0,#cc,--,'' = ''k0 -cc -''"
    by (simp_all add: pass_eval)
  with early late show ?thesis by simp
qed

section \<open>The null onset never survives graph2phone\<close>

text \<open>
  The walk keeps the phone string free of \<open>-oh\<close>: a string without \<open>-oh\<close> is left
  alone by the substitution, and what the walk appends starts with a marker.
\<close>

lemma sublist_trans: "sublist xs ys \<Longrightarrow> sublist ys zs \<Longrightarrow> sublist xs zs"
  by (rule sublist_order.order_trans)

lemma no_oh_append_right:
  assumes "\<not> sublist ''-oh'' a" and "\<not> sublist ''-oh'' b"
    and "b = [] \<or> (hd b \<noteq> CHR ''o'' \<and> hd b \<noteq> CHR ''h'')"
  shows "\<not> sublist ''-oh'' (a @ b)"
proof
  assume "sublist ''-oh'' (a @ b)"
  with assms(1,2) obtain xs1 xs2
    where split: "''-oh'' = xs1 @ xs2" and suf: "suffix xs1 a" and pre: "prefix xs2 b"
    by (auto simp: sublist_append)
  from split have "xs2 = ''-oh'' \<or> xs2 = ''oh'' \<or> xs2 = ''h'' \<or> xs2 = []"
    by (auto simp: Cons_eq_append_conv)
  then show False
  proof (elim disjE)
    assume "xs2 = ''-oh''"
    with pre assms(2) show False by auto
  next
    assume "xs2 = ''oh''"
    with pre assms(3) show False by (auto simp: prefix_def)
  next
    assume "xs2 = ''h''"
    with pre assms(3) show False by (auto simp: prefix_def)
  next
    assume "xs2 = []"
    with split suf assms(1) show False by auto
  qed
qed

lemma no_oh_without_hyphen: "CHR ''-'' \<notin> set s \<Longrightarrow> \<not> sublist ''-oh'' s"
  using set_mono_sublist [of "''-oh''" s] by auto

lemma no_oh_without_o: "CHR ''o'' \<notin> set s \<Longrightarrow> \<not> sublist ''-oh'' s"
  using set_mono_sublist [of "''-oh''" s] by auto

lemma no_oh_Cons:
  "\<not> sublist ''-oh'' (c # s) \<longleftrightarrow> \<not> (c = CHR ''-'' \<and> prefix ''oh'' s) \<and> \<not> sublist ''-oh'' s"
  by (auto simp: sublist_Cons_right)

lemma sub_literal_absent:
  "\<not> sublist ''-oh'' s \<Longrightarrow> sub_literal ''-oh'' rep s = s"
  by (induction s) (auto simp: no_oh_Cons)

lemma sub_literal_after_clean_prefix:
  assumes "\<not> sublist ''-oh'' p"
    and "t = [] \<or> (hd t \<noteq> CHR ''o'' \<and> hd t \<noteq> CHR ''h'')"
  shows "sub_literal ''-oh'' rep (p @ t) = p @ sub_literal ''-oh'' rep t"
  using assms
proof (induction p)
  case Nil
  then show ?case by simp
next
  case (Cons c p)
  from Cons.prems(1) have rest: "\<not> sublist ''-oh'' p"
    and here: "\<not> (c = CHR ''-'' \<and> prefix ''oh'' p)"
    by (simp_all add: no_oh_Cons)
  have "\<not> prefix ''-oh'' (c # p @ t)"
  proof
    assume "prefix ''-oh'' (c # p @ t)"
    then have c: "c = CHR ''-''" and oh: "prefix ''oh'' (p @ t)" by simp_all
    show False
    proof (cases p)
      case Nil
      with oh Cons.prems(2) show False by (auto simp: prefix_def)
    next
      case outer: (Cons x p')
      show False
      proof (cases p')
        case Nil
        with outer oh Cons.prems(2) show False by (auto simp: prefix_def)
      next
        case (Cons y p'')
        with outer oh have "prefix ''oh'' p" by simp
        with here c show False by simp
      qed
    qed
  qed
  with Cons.IH [OF rest Cons.prems(2)] show ?case by auto

qed

lemma index_bounds:
  assumes "is_hangul c"
  shows "nat (iONS c - 1) < length ONS" "nat (iNUC c - 1) < length NUC"
    "nat (iCOD c - 1) < length COD"
proof -
  from assms have range: "0 \<le> c - 44032" "c - 44032 \<le> 11171"
    by (simp_all add: is_hangul_def)
  then have "(c - 44032) div 588 < 19" by simp
  then show "nat (iONS c - 1) < length ONS"
    by (simp add: iONS_def table_lengths)
  have "(c - 44032) mod 588 div 28 < 21" by simp
  then show "nat (iNUC c - 1) < length NUC"
    by (simp add: iNUC_def table_lengths)
  have "(c - 44032) mod 588 mod 28 < 28" by simp
  then show "nat (iCOD c - 1) < length COD"
    by (simp add: iCOD_def table_lengths)
qed

lemma onset_codes: "\<forall>x\<in>set ONS. length x = 2 \<and> CHR ''-'' \<notin> set x"
  by (simp add: ONS_def)

lemma nucleus_codes: "\<forall>x\<in>set NUC. length x = 2 \<and> CHR ''-'' \<notin> set x \<and> x \<noteq> ''oh''"
  by (simp add: NUC_def)

lemma coda_codes: "\<forall>x\<in>set COD. CHR ''-'' \<notin> set x"
  by (simp add: COD_def)

lemma prefix_oh_code:
  assumes "length x = 2"
  shows "prefix ''oh'' (x @ rest) \<longleftrightarrow> x = ''oh''"
proof -
  from assms obtain a b where "x = [a, b]"
    by (cases x; cases "tl x") auto
  then show ?thesis by auto
qed

text \<open>What the substitution after a syllable leaves of it.\<close>

lemma syllable_after_sub:
  assumes "is_hangul c"
  shows "\<exists>w. sub_literal ''-oh'' ''-'' (syllable c) = CHR ''-'' # w
            \<and> CHR ''-'' \<notin> set w \<and> \<not> prefix ''oh'' w"
proof -
  define ons where "ons = ONS ! nat (iONS c - 1)"
  define nuc where "nuc = NUC ! nat (iNUC c - 1)"
  define cod where "cod = COD ! nat (iCOD c - 1)"
  from index_bounds [OF assms] have mem: "ons \<in> set ONS" "nuc \<in> set NUC" "cod \<in> set COD"
    by (simp_all add: ons_def nuc_def cod_def)
  with onset_codes nucleus_codes coda_codes
  have ons: "length ons = 2" "CHR ''-'' \<notin> set ons"
    and nuc: "length nuc = 2" "CHR ''-'' \<notin> set nuc" "nuc \<noteq> ''oh''"
    and cod: "CHR ''-'' \<notin> set cod"
    by blast+
  have syl: "syllable c = CHR ''-'' # ons @ nuc @ cod"
    by (simp add: syllable_def ons_def nuc_def cod_def)
  show ?thesis
  proof (cases "ons = ''oh''")
    case True
    have "sub_literal ''-oh'' ''-'' (nuc @ cod) = nuc @ cod"
      using nuc cod by (intro sub_literal_absent no_oh_without_hyphen) simp
    with True syl have "sub_literal ''-oh'' ''-'' (syllable c) = CHR ''-'' # nuc @ cod"
      by simp
    moreover have "CHR ''-'' \<notin> set (nuc @ cod)" using nuc cod by simp
    moreover have "\<not> prefix ''oh'' (nuc @ cod)"
      using nuc by (simp add: prefix_oh_code)
    ultimately show ?thesis by blast
  next
    case False
    then have no: "\<not> prefix ''oh'' (ons @ nuc @ cod)"
      using ons by (simp add: prefix_oh_code)
    have "sub_literal ''-oh'' ''-'' (ons @ nuc @ cod) = ons @ nuc @ cod"
      using ons nuc cod by (intro sub_literal_absent no_oh_without_hyphen) simp
    with no syl have "sub_literal ''-oh'' ''-'' (syllable c) = CHR ''-'' # ons @ nuc @ cod"
      by simp
    moreover have "CHR ''-'' \<notin> set (ons @ nuc @ cod)" using ons nuc cod by simp
    ultimately show ?thesis using no by blast
  qed
qed

lemma syllable_head: "syllable c \<noteq> [] \<and> hd (syllable c) = CHR ''-''"
  by (simp add: syllable_def)

text \<open>The invariant of the walk.\<close>

lemma walk_step:
  assumes "\<not> sublist ''-oh'' phones"
    and "phones = [] \<or> hd phones = CHR ''-'' \<or> hd phones = CHR ''#''"
    and "t = 0 \<longrightarrow> is_hangul c"
  defines "phones' \<equiv> sub_literal ''-oh'' ''-''
                       (phones @ (if t = 0 then syllable c else if t = 1 then ''#'' else []))"
  shows "\<not> sublist ''-oh'' phones' \<and> (phones' = [] \<or> hd phones' = CHR ''-'' \<or> hd phones' = CHR ''#'')"
proof -
  consider (syl) "t = 0" | (space) "t \<noteq> 0" "t = 1" | (other) "t \<noteq> 0" "t \<noteq> 1"
    by blast
  then show ?thesis
  proof cases
    case syl
    with assms(3) obtain w where w: "sub_literal ''-oh'' ''-'' (syllable c) = CHR ''-'' # w"
      "CHR ''-'' \<notin> set w" "\<not> prefix ''oh'' w"
      using syllable_after_sub by blast
    have "sub_literal ''-oh'' ''-'' (phones @ syllable c)
          = phones @ sub_literal ''-oh'' ''-'' (syllable c)"
      using assms(1) syllable_head [of c] by (intro sub_literal_after_clean_prefix) simp_all
    with syl w have eq: "phones' = phones @ CHR ''-'' # w"
      by (simp add: phones'_def)
    have "\<not> sublist ''-oh'' (CHR ''-'' # w)"
      using w no_oh_without_hyphen [of w] by (simp add: no_oh_Cons)
    with assms(1) have "\<not> sublist ''-oh'' (phones @ CHR ''-'' # w)"
      by (intro no_oh_append_right) simp_all
    with eq assms(2) show ?thesis by (cases phones) auto
  next
    case space
    have "sub_literal ''-oh'' ''-'' (phones @ ''#'') = phones @ sub_literal ''-oh'' ''-'' ''#''"
      using assms(1) by (intro sub_literal_after_clean_prefix) simp_all
    with space have eq: "phones' = phones @ ''#''"
      by (simp add: phones'_def)
    have "\<not> sublist ''-oh'' (phones @ ''#'')"
      using assms(1) by (intro no_oh_append_right) (simp_all add: sublist_Cons_right)
    with eq assms(2) show ?thesis by (cases phones) auto
  next
    case other
    with assms(1) have "phones' = phones"
      by (simp add: phones'_def sub_literal_absent)
    with assms(1,2) show ?thesis by simp
  qed
qed

lemma zip_check_char_type:
  "(c, t) \<in> set (zip integers (check_char_type integers)) \<Longrightarrow> t = 0 \<longrightarrow> is_hangul c"
  by (induction integers) (auto split: if_splits)

lemma walk_invariant:
  assumes "\<not> sublist ''-oh'' phones"
    and "phones = [] \<or> hd phones = CHR ''-'' \<or> hd phones = CHR ''#''"
    and "\<forall>(c, t)\<in>set cts. t = 0 \<longrightarrow> is_hangul c"
  shows "\<not> sublist ''-oh'' (graph2phone_walk cts phones)
       \<and> (graph2phone_walk cts phones = [] \<or> hd (graph2phone_walk cts phones) = CHR ''-''
          \<or> hd (graph2phone_walk cts phones) = CHR ''#'')"
  using assms
proof (induction cts phones rule: graph2phone_walk.induct)
  case (1 phones)
  then show ?case by simp
next
  case (2 c t rest phones)
  from "2.prems"(3) have here: "t = 0 \<longrightarrow> is_hangul c"
    and later: "\<forall>(c, t)\<in>set rest. t = 0 \<longrightarrow> is_hangul c"
    by simp_all
  from walk_step [OF "2.prems"(1) "2.prems"(2) here]
  show ?case
    using "2.IH" later by simp
qed

text \<open>Line 328: \<open>oh-\<close> becomes \<open>ng-\<close>.\<close>

lemma sub_oh_hyphen_Cons:
  "sub_literal ''oh-'' ''ng-'' (c # cs) =
     (if prefix ''oh-'' (c # cs) then ''ng-'' @ sub_literal ''oh-'' ''ng-'' (drop 2 cs)
      else c # sub_literal ''oh-'' ''ng-'' cs)"
  by (simp add: numeral_2_eq_2)

lemma sub_oh_hyphen_h:
  "prefix ''h'' (sub_literal ''oh-'' ''ng-'' s) \<Longrightarrow> prefix ''h'' s"
  by (cases s) (auto split: if_splits)

lemma sub_oh_hyphen_oh:
  assumes oh: "prefix ''oh'' (sub_literal ''oh-'' ''ng-'' s)"
  shows "prefix ''oh'' s"
proof (cases s)
  case Nil
  with oh show ?thesis by simp
next
  case (Cons c cs)
  show ?thesis
  proof (cases "prefix ''oh-'' (c # cs)")
    case True
    with oh Cons show ?thesis by simp
  next
    case False
    with Cons have "sub_literal ''oh-'' ''ng-'' s = c # sub_literal ''oh-'' ''ng-'' cs"
      by (simp only: sub_oh_hyphen_Cons if_False)
    with oh have "c = CHR ''o''" and "prefix ''h'' (sub_literal ''oh-'' ''ng-'' cs)"
      by auto

    with sub_oh_hyphen_h [of cs] Cons show ?thesis by simp
  qed
qed

lemma sub_oh_hyphen_clean:
  "\<not> sublist ''-oh'' s \<Longrightarrow> \<not> sublist ''-oh'' (sub_literal ''oh-'' ''ng-'' s)"
proof (induction s rule: length_induct)
  case (1 s)
  show ?case
  proof (cases s)
    case Nil
    then show ?thesis by simp
  next
    case (Cons c cs)
    show ?thesis
    proof (cases "prefix ''oh-'' (c # cs)")
      case True
      then obtain t where s: "s = ''oh-'' @ t"
        using Cons by (auto simp: prefix_def)
      with "1.prems" have t: "\<not> sublist ''-oh'' t" and noh: "\<not> prefix ''oh'' t"
        by (simp_all add: no_oh_Cons)
      from s have "length t < length s" by simp
      with "1.IH" t have "\<not> sublist ''-oh'' (sub_literal ''oh-'' ''ng-'' t)" by blast
      moreover from noh sub_oh_hyphen_oh
      have "\<not> prefix ''oh'' (sub_literal ''oh-'' ''ng-'' t)" by blast
      moreover from s have "sub_literal ''oh-'' ''ng-'' s = ''ng-'' @ sub_literal ''oh-'' ''ng-'' t"
        by simp
      ultimately show ?thesis by (simp add: no_oh_Cons)
    next
      case False
      with Cons have eq: "sub_literal ''oh-'' ''ng-'' s = c # sub_literal ''oh-'' ''ng-'' cs"
        by (simp only: sub_oh_hyphen_Cons if_False)
      from "1.prems" Cons have cs: "\<not> sublist ''-oh'' cs"
        and here: "\<not> (c = CHR ''-'' \<and> prefix ''oh'' cs)"
        by (simp_all add: no_oh_Cons)
      from Cons have "length cs < length s" by simp
      with "1.IH" cs have "\<not> sublist ''-oh'' (sub_literal ''oh-'' ''ng-'' cs)" by blast
      moreover from here sub_oh_hyphen_oh
      have "\<not> (c = CHR ''-'' \<and> prefix ''oh'' (sub_literal ''oh-'' ''ng-'' cs))" by blast
      ultimately show ?thesis by (simp add: eq no_oh_Cons)
    qed
  qed
qed

lemma sub_oh_hyphen_head:
  assumes "s = [] \<or> hd s = CHR ''-'' \<or> hd s = CHR ''#''"
  shows "sub_literal ''oh-'' ''ng-'' s = [] \<or> hd (sub_literal ''oh-'' ''ng-'' s) = CHR ''-''
         \<or> hd (sub_literal ''oh-'' ''ng-'' s) = CHR ''#''"
  using assms by (cases s) auto

text \<open>Line 329: \<open>oh\<close> before a word marker, a space or the end.\<close>

lemma sub_oh_boundary_single: "sub_oh_boundary [c] = [c]"
  by simp

lemma sub_oh_boundary_pair:
  "sub_oh_boundary [c, d] = (if c = CHR ''o'' \<and> d = CHR ''h'' then ''ng'' else [c, d])"
  by simp

lemma sub_oh_boundary_triple:
  "sub_oh_boundary (c # d # e # r) =
     (if c = CHR ''o'' \<and> d = CHR ''h'' then
        (if e = CHR ''#'' \<or> e = CHR '' '' then ''ng'' @ sub_oh_boundary r
         else if e = CHR 0x0A \<and> r = [] then ''ng'' @ [e]
         else c # sub_oh_boundary (d # e # r))
      else c # sub_oh_boundary (d # e # r))"
  by (subst sub_oh_boundary.simps) (simp del: sub_oh_boundary.simps(2))

lemma sub_oh_boundary_cases:
  obtains (nil) "s = []"
  | (marker) e r where "s = CHR ''o'' # CHR ''h'' # e # r" and "e = CHR ''#'' \<or> e = CHR '' ''"
      and "sub_oh_boundary s = ''ng'' @ sub_oh_boundary r"
  | (ending) "s = ''oh''" and "sub_oh_boundary s = ''ng''"
  | (newline) "s = [CHR ''o'', CHR ''h'', CHR 0x0A]"
      and "sub_oh_boundary s = [CHR ''n'', CHR ''g'', CHR 0x0A]"
  | (step) c cs where "s = c # cs" and "sub_oh_boundary s = c # sub_oh_boundary cs"
proof (cases s)
  case Nil
  then show ?thesis by (rule nil)
next
  case s: (Cons c cs)
  show ?thesis
  proof (cases cs)
    case Nil
    with s have "s = c # []" and "sub_oh_boundary s = c # sub_oh_boundary []" by simp_all
    then show ?thesis by (rule step)
  next
    case cs: (Cons d rest)
    show ?thesis
    proof (cases rest)
      case Nil
      show ?thesis
      proof (cases "c = CHR ''o'' \<and> d = CHR ''h''")
        case True
        with s cs Nil have "s = ''oh''" and "sub_oh_boundary s = ''ng''"
          by (simp_all add: sub_oh_boundary_pair del: sub_oh_boundary.simps(2))
        then show ?thesis by (rule ending)
      next
        case False
        with s cs Nil have "s = c # [d]" and "sub_oh_boundary s = c # sub_oh_boundary [d]"
          by (simp_all add: sub_oh_boundary_pair sub_oh_boundary_single
              del: sub_oh_boundary.simps(2))
        then show ?thesis by (rule step)
      qed
    next
      case rest: (Cons e r)
      have shape: "s = c # d # e # r" using s cs rest by simp
      consider (a) "c = CHR ''o''" "d = CHR ''h''" "e = CHR ''#'' \<or> e = CHR '' ''"
        | (b) "c = CHR ''o''" "d = CHR ''h''" "\<not> (e = CHR ''#'' \<or> e = CHR '' '')"
              "e = CHR 0x0A" "r = []"
        | (c) "\<not> (c = CHR ''o'' \<and> d = CHR ''h''
                  \<and> (e = CHR ''#'' \<or> e = CHR '' '' \<or> (e = CHR 0x0A \<and> r = [])))"
        by blast
      then show ?thesis
      proof cases
        case a
        with shape have "s = CHR ''o'' # CHR ''h'' # e # r"
          and "sub_oh_boundary s = ''ng'' @ sub_oh_boundary r"
          by (simp_all add: sub_oh_boundary_triple del: sub_oh_boundary.simps(2))
        with a(3) show ?thesis by (intro marker)
      next
        case b
        with shape have "s = [CHR ''o'', CHR ''h'', CHR 0x0A]"
          and "sub_oh_boundary s = [CHR ''n'', CHR ''g'', CHR 0x0A]"
          by (simp_all add: sub_oh_boundary_triple del: sub_oh_boundary.simps(2))
        then show ?thesis by (rule newline)
      next
        case c
        with shape have "s = c # (d # e # r)"
          and "sub_oh_boundary s = c # sub_oh_boundary (d # e # r)"
          by (auto simp add: sub_oh_boundary_triple simp del: sub_oh_boundary.simps(2))
        then show ?thesis by (rule step)
      qed
    qed
  qed
qed

lemma sub_oh_boundary_h:
  assumes "prefix ''h'' (sub_oh_boundary s)"
  shows "prefix ''h'' s"
  using assms by (cases s rule: sub_oh_boundary_cases) (simp_all del: sub_oh_boundary.simps(2))

lemma sub_oh_boundary_oh:
  assumes oh: "prefix ''oh'' (sub_oh_boundary s)"
  shows "prefix ''oh'' s"
proof (cases s rule: sub_oh_boundary_cases)
  case (step c cs)
  with oh have "c = CHR ''o''" and "prefix ''h'' (sub_oh_boundary cs)"
    by (simp_all del: sub_oh_boundary.simps(2))
  with sub_oh_boundary_h [of cs] step show ?thesis by simp
qed (use oh in \<open>simp_all del: sub_oh_boundary.simps(2)\<close>)

lemma sub_oh_boundary_clean:
  "\<not> sublist ''-oh'' s \<Longrightarrow> \<not> sublist ''-oh'' (sub_oh_boundary s)"
proof (induction s rule: length_induct)
  case (1 s)
  show ?case
  proof (cases s rule: sub_oh_boundary_cases)
    case nil
    then show ?thesis by simp
  next
    case (marker e r)
    with "1.prems" have "\<not> sublist ''-oh'' r" by (simp add: no_oh_Cons)
    moreover from marker have "length r < length s" by simp
    ultimately have "\<not> sublist ''-oh'' (sub_oh_boundary r)" using "1.IH" by blast
    with marker show ?thesis by (simp add: no_oh_Cons del: sub_oh_boundary.simps(2))
  next
    case ending
    then show ?thesis by (simp add: sublist_Cons_right del: sub_oh_boundary.simps(2))
  next
    case newline
    then show ?thesis by (simp add: sublist_Cons_right del: sub_oh_boundary.simps(2))
  next
    case (step c cs)
    with "1.prems" have cs: "\<not> sublist ''-oh'' cs"
      and here: "\<not> (c = CHR ''-'' \<and> prefix ''oh'' cs)"
      by (simp_all add: no_oh_Cons)
    from step have "length cs < length s" by simp
    with cs "1.IH" have "\<not> sublist ''-oh'' (sub_oh_boundary cs)" by blast
    moreover from here sub_oh_boundary_oh
    have "\<not> (c = CHR ''-'' \<and> prefix ''oh'' (sub_oh_boundary cs))" by blast
    ultimately show ?thesis using step by (simp add: no_oh_Cons del: sub_oh_boundary.simps(2))
  qed
qed

lemma sub_oh_boundary_head:
  assumes "s = [] \<or> hd s = CHR ''-'' \<or> hd s = CHR ''#''"
  shows "sub_oh_boundary s = [] \<or> hd (sub_oh_boundary s) = CHR ''-''
         \<or> hd (sub_oh_boundary s) = CHR ''#''"
  using assms by (cases s rule: sub_oh_boundary_cases) (auto simp del: sub_oh_boundary.simps(2))

text \<open>Line 332: the \<open>-\<close> after a run of non-word characters.\<close>

lemma word_char_letters [simp]:
  "word_char (CHR ''o'')" "word_char (CHR ''h'')" "\<not> word_char (CHR ''-'')"
  "\<not> word_char (CHR ''#'')"
  by (simp_all add: word_char_def)

lemma fix_run_Cons:
  "fix_run (c # r) =
     c # (if CHR ''-'' \<in> set r then rev (remove1 (CHR ''-'') (rev r)) else r)"
  by (simp add: fix_run_def remove1_append)

lemma set_fix_run: "set (fix_run run) \<subseteq> set run"
proof (cases "CHR ''-'' \<in> set (tl run)")
  case True
  then have "set (fix_run run) = set (remove1 (CHR ''-'') (rev run))"
    by (simp add: fix_run_def)
  also have "\<dots> \<subseteq> set (rev run)" by (rule set_remove1_subset)
  finally show ?thesis by simp
next
  case False
  then show ?thesis by (simp add: fix_run_def)
qed

lemma fix_run_last:
  assumes "last (fix_run (c # r)) = CHR ''-''"
  shows "last (c # r) = CHR ''-''"
proof (cases "CHR ''-'' \<in> set r")
  case False
  with assms show ?thesis by (simp add: fix_run_Cons)
next
  case True
  then have "r \<noteq> []" by auto
  then obtain r' x where r: "r = r' @ [x]"
    by (cases r rule: rev_cases) auto
  show ?thesis
  proof (cases "x = CHR ''-''")
    case True
    with r show ?thesis by simp
  next
    case False
    with True r have "fix_run (c # r) = c # rev (remove1 (CHR ''-'') (rev r')) @ [x]"
      by (simp add: fix_run_Cons)
    with assms False show ?thesis by simp
  qed
qed

lemma sub_nonword_hyphen_word:
  "word_char c \<Longrightarrow> sub_nonword_hyphen (c # cs) = c # sub_nonword_hyphen cs"
  by simp

lemma sub_nonword_hyphen_run:
  assumes "\<not> word_char c"
  shows "sub_nonword_hyphen (c # cs) =
           fix_run (c # takeWhile (\<lambda>d. \<not> word_char d) cs)
           @ sub_nonword_hyphen (dropWhile (\<lambda>d. \<not> word_char d) cs)"
  using assms by simp

lemma sub_nonword_hyphen_hd:
  "sub_nonword_hyphen (c # cs) \<noteq> [] \<and> hd (sub_nonword_hyphen (c # cs)) = c"
proof (cases "word_char c")
  case True
  then show ?thesis by simp
next
  case False
  then have "sub_nonword_hyphen (c # cs) =
           fix_run (c # takeWhile (\<lambda>d. \<not> word_char d) cs)
           @ sub_nonword_hyphen (dropWhile (\<lambda>d. \<not> word_char d) cs)"
    by (rule sub_nonword_hyphen_run)
  then show ?thesis by (simp only: fix_run_Cons) simp
qed

lemma sub_nonword_hyphen_h:
  assumes "prefix ''h'' (sub_nonword_hyphen s)"
  shows "prefix ''h'' s"
proof (cases s)
  case Nil
  with assms show ?thesis by simp
next
  case (Cons c cs)
  with assms sub_nonword_hyphen_hd [of c cs] have "c = CHR ''h''"
    by (cases "sub_nonword_hyphen (c # cs)") auto
  with Cons show ?thesis by simp
qed

lemma sub_nonword_hyphen_oh:
  assumes "prefix ''oh'' (sub_nonword_hyphen s)"
  shows "prefix ''oh'' s"
proof (cases s)
  case Nil
  with assms show ?thesis by simp
next
  case (Cons c cs)
  with assms sub_nonword_hyphen_hd [of c cs] have c: "c = CHR ''o''"
    by (cases "sub_nonword_hyphen (c # cs)") auto
  with assms Cons have "prefix ''h'' (sub_nonword_hyphen cs)"
    by (simp only: sub_nonword_hyphen_word word_char_letters) simp
  with sub_nonword_hyphen_h [of cs] c Cons show ?thesis by simp
qed

lemma oh_spanning:
  assumes "sublist ''-oh'' (a @ b)" and "\<not> sublist ''-oh'' a" and "\<not> sublist ''-oh'' b"
  shows "(suffix ''-'' a \<and> prefix ''oh'' b) \<or> (suffix ''-o'' a \<and> prefix ''h'' b)"
proof -
  from assms obtain xs1 xs2
    where split: "''-oh'' = xs1 @ xs2" and suf: "suffix xs1 a" and pre: "prefix xs2 b"
    by (auto simp: sublist_append)
  from split have "(xs1 = [] \<and> xs2 = ''-oh'') \<or> (xs1 = ''-'' \<and> xs2 = ''oh'')
                 \<or> (xs1 = ''-o'' \<and> xs2 = ''h'') \<or> (xs1 = ''-oh'' \<and> xs2 = [])"
    by (auto simp: Cons_eq_append_conv)
  with suf pre assms(2,3) show ?thesis by auto
qed

lemma sub_nonword_hyphen_clean:
  "\<not> sublist ''-oh'' s \<Longrightarrow> \<not> sublist ''-oh'' (sub_nonword_hyphen s)"
proof (induction s rule: sub_nonword_hyphen.induct)
  case 1
  then show ?case by simp
next
  case (2 c cs)
  show ?case
  proof (cases "word_char c")
    case True
    with "2.prems" "2.IH"(1) have "\<not> sublist ''-oh'' (sub_nonword_hyphen cs)"
      by (simp add: no_oh_Cons)
    moreover from True have "c \<noteq> CHR ''-''" by auto
    ultimately show ?thesis using True
      by (simp only: sub_nonword_hyphen_word no_oh_Cons) simp
  next
    case False
    define run where "run = c # takeWhile (\<lambda>d. \<not> word_char d) cs"
    define rest where "rest = dropWhile (\<lambda>d. \<not> word_char d) cs"
    have s: "c # cs = run @ rest"
      by (simp add: run_def rest_def)
    have result: "sub_nonword_hyphen (c # cs) = fix_run run @ sub_nonword_hyphen rest"
      unfolding run_def rest_def using False by (rule sub_nonword_hyphen_run)

    have nonword: "\<forall>d\<in>set run. \<not> word_char d"
      using False by (auto simp: run_def dest: set_takeWhileD)
    have "sublist rest (c # cs)" unfolding s by simp
    with "2.prems" have "\<not> sublist ''-oh'' rest"
      using sublist_trans by blast
    with "2.IH"(2) False have B: "\<not> sublist ''-oh'' (sub_nonword_hyphen rest)"
      by (simp add: rest_def)
    have "CHR ''o'' \<notin> set (fix_run run)"
      using nonword set_fix_run [of run] word_char_letters(1) by blast

    then have A: "\<not> sublist ''-oh'' (fix_run run)" and no_o: "\<not> suffix ''-o'' (fix_run run)"
      using no_oh_without_o by (auto simp: suffix_def)
    show ?thesis
    proof
      assume "sublist ''-oh'' (sub_nonword_hyphen (c # cs))"
      with result have "sublist ''-oh'' (fix_run run @ sub_nonword_hyphen rest)" by simp
      from oh_spanning [OF this A B] no_o
      have suf: "suffix ''-'' (fix_run run)" and "prefix ''oh'' (sub_nonword_hyphen rest)"
        by auto
      then have oh: "prefix ''oh'' rest" using sub_nonword_hyphen_oh by blast
      from suf have "last (fix_run run) = CHR ''-''" by (auto simp: suffix_def)
      then have "last run = CHR ''-''"
        unfolding run_def by (rule fix_run_last)
      moreover have "run \<noteq> []" by (simp add: run_def)
      ultimately have "run = butlast run @ ''-''"
        using append_butlast_last_id [of run] by simp
      moreover from oh obtain t where "rest = ''oh'' @ t" by (auto simp: prefix_def)
      ultimately have "c # cs = butlast run @ ''-oh'' @ t"
        using s by (metis append.assoc append_Cons append_Nil)
      then have "sublist ''-oh'' (c # cs)"
        by (metis sublist_appendI)
      with "2.prems" show False by contradiction
    qed
  qed
qed

lemma sub_nonword_hyphen_head:
  assumes "s = [] \<or> hd s = CHR ''-'' \<or> hd s = CHR ''#''"
  shows "sub_nonword_hyphen s = [] \<or> hd (sub_nonword_hyphen s) = CHR ''-''
         \<or> hd (sub_nonword_hyphen s) = CHR ''#''"
proof (cases s)
  case Nil
  then show ?thesis by simp
next
  case (Cons c cs)
  with assms sub_nonword_hyphen_hd [of c cs] show ?thesis by auto
qed

text \<open>Lines 333 and 334: the trailing run and the leading \<open>-\<close>.\<close>

lemma sub_nonword_end_prefix: "prefix (sub_nonword_end s) s"
proof -
  have "rev (dropWhile (\<lambda>d. \<not> word_char d) (rev s)) @ rev (takeWhile (\<lambda>d. \<not> word_char d) (rev s))
        = rev (takeWhile (\<lambda>d. \<not> word_char d) (rev s) @ dropWhile (\<lambda>d. \<not> word_char d) (rev s))"
    by (simp only: rev_append)
  also have "\<dots> = s" by simp
  finally show ?thesis
    unfolding sub_nonword_end_def by (metis prefixI)
qed

lemma sub_nonword_end_clean:
  "\<not> sublist ''-oh'' s \<Longrightarrow> \<not> sublist ''-oh'' (sub_nonword_end s)"
  using sub_nonword_end_prefix [of s] sublist_trans prefix_imp_sublist by blast

lemma sub_nonword_end_head:
  assumes "s = [] \<or> hd s = CHR ''-'' \<or> hd s = CHR ''#''"
  shows "sub_nonword_end s = [] \<or> hd (sub_nonword_end s) = CHR ''-''
         \<or> hd (sub_nonword_end s) = CHR ''#''"
proof (cases "sub_nonword_end s")
  case Nil
  then show ?thesis by simp
next
  case (Cons c t)
  with sub_nonword_end_prefix [of s] have "hd s = c" by (auto simp: prefix_def)
  moreover from Cons sub_nonword_end_prefix [of s] have "s \<noteq> []" by auto
  ultimately show ?thesis using assms Cons by simp
qed

lemma sub_caret_hyphen_clean:
  assumes "\<not> sublist ''-oh'' s" and "s = [] \<or> hd s = CHR ''-'' \<or> hd s = CHR ''#''"
  shows "\<not> sublist ''-oh'' (sub_caret_hyphen s) \<and> \<not> prefix ''oh'' (sub_caret_hyphen s)"
proof (cases s)
  case Nil
  then show ?thesis by (simp add: sub_caret_hyphen_def)
next
  case (Cons c t)
  with assms show ?thesis
    by (auto simp: sub_caret_hyphen_def no_oh_Cons)
qed

lemma sub_caret_oh_marked:
  assumes "s = [] \<or> hd s = CHR ''-'' \<or> hd s = CHR ''#''"
  shows "sub_caret_oh s = s"
  using assms by (cases s) (auto simp: sub_caret_oh_def)

text \<open>
  Claim C10. For every input, the string \<open>graph2phone\<close> returns does not contain
  \<open>-oh\<close> and does not begin with \<open>oh\<close>. After the walk the string holds no \<open>-oh\<close> and
  begins with a marker, so lines 324 and 325 change nothing; none of the later
  substitutions brings a \<open>-\<close> in front of an \<open>oh\<close>, and the leading \<open>-\<close> that line 334
  strips is not followed by \<open>oh\<close>.
\<close>

theorem graph2phone_no_initial_null_onset:
  "\<not> sublist ''-oh'' (graph2phone integers) \<and> \<not> prefix ''oh'' (graph2phone integers)"
proof -
  define p0 where "p0 = graph2phone_walk (zip integers (check_char_type integers)) []"
  have "\<forall>(c, t)\<in>set (zip integers (check_char_type integers)). t = 0 \<longrightarrow> is_hangul c"
    using zip_check_char_type by blast
  then have p0: "\<not> sublist ''-oh'' p0" "p0 = [] \<or> hd p0 = CHR ''-'' \<or> hd p0 = CHR ''#''"
    using walk_invariant [of "[]" "zip integers (check_char_type integers)"]
    by (simp_all add: p0_def)
  define p1 where "p1 = sub_literal ''-oh'' [] (sub_caret_oh p0)"
  from p0 have p1_eq: "p1 = p0"
    by (simp add: p1_def sub_caret_oh_marked sub_literal_absent)
  define p2 where "p2 = sub_literal ''oh-'' ''ng-'' p1"
  from p0 p1_eq have p2: "\<not> sublist ''-oh'' p2" "p2 = [] \<or> hd p2 = CHR ''-'' \<or> hd p2 = CHR ''#''"
    unfolding p2_def by (simp_all only: sub_oh_hyphen_clean sub_oh_hyphen_head not_False_eq_True)
  define p3 where "p3 = sub_oh_boundary p2"
  from p2 have p3: "\<not> sublist ''-oh'' p3" "p3 = [] \<or> hd p3 = CHR ''-'' \<or> hd p3 = CHR ''#''"
    unfolding p3_def by (simp_all only: sub_oh_boundary_clean sub_oh_boundary_head not_False_eq_True)
  define p4 where "p4 = sub_nonword_hyphen p3"
  from p3 have p4: "\<not> sublist ''-oh'' p4" "p4 = [] \<or> hd p4 = CHR ''-'' \<or> hd p4 = CHR ''#''"
    unfolding p4_def
    by (simp_all only: sub_nonword_hyphen_clean sub_nonword_hyphen_head not_False_eq_True)
  define p5 where "p5 = sub_nonword_end p4"
  from p4 have p5: "\<not> sublist ''-oh'' p5" "p5 = [] \<or> hd p5 = CHR ''-'' \<or> hd p5 = CHR ''#''"
    unfolding p5_def
    by (simp_all only: sub_nonword_end_clean sub_nonword_end_head not_False_eq_True)
  have "graph2phone integers = sub_caret_hyphen p5"
    by (simp add: graph2phone_def graph2phone_cleanup_def p0_def p1_def p2_def p3_def p4_def
        p5_def)
  with sub_caret_hyphen_clean [OF p5] show ?thesis by simp
qed

section \<open>The form of the result\<close>



lemma word_char_ng [simp]: "word_char (CHR ''n'')" "word_char (CHR ''g'')"
  by (simp_all add: word_char_def)

lemma walk_form_last: "walk_form p \<Longrightarrow> p \<noteq> [] \<Longrightarrow> last p \<noteq> CHR ''-''"
  by (induction p) (auto split: if_splits)

lemma walk_form_chars: "walk_form p \<Longrightarrow> c \<in> set p \<Longrightarrow> word_char c \<or> c = CHR ''-'' \<or> c = CHR ''#''"
  by (induction p) (auto split: if_splits)



















lemma joined_form_chars:
  "joined_form s \<Longrightarrow> c \<in> set s \<Longrightarrow> word_char c \<or> c = CHR ''-'' \<or> c = CHR ''#''"
  by (induction s) (auto split: if_splits)





text \<open>\<open>add_phone_boundary\<close> on a grouped string.\<close>

lemma code_char_simps [simp]:
  "\<not> code_char (CHR '' '')" "\<not> code_char (CHR '','')" "\<not> code_char (CHR ''-'')"
  "\<not> code_char (CHR ''#'')"
  by (simp_all add: code_char_def)

lemma marker_simps [simp]:
  "marker (CHR ''-'')" "marker (CHR ''#'')" "\<not> marker (CHR '','')" "\<not> marker (CHR '' '')"
  by (simp_all add: marker_def)


lemma annotated_plain:
  "\<not> marker a \<Longrightarrow> annotated (a # b # c # rest)
     \<longleftrightarrow> code_char a \<and> code_char b \<and> c = CHR '','' \<and> annotated rest"
  by simp

lemma annotated_marked:
  "marker a \<Longrightarrow> annotated (a # b # c # k # rest)
     \<longleftrightarrow> code_char b \<and> code_char c \<and> k = CHR '','' \<and> annotated rest"
  by simp


























end
